theory Spec2Isabelle
  imports Complex_Main "HOL-Library.Word"
begin

unbundle bit_operations_syntax

section \<open>The YOLO image-detection pipeline (scripts/yolo\_object\_detection.py)\<close>

text \<open>
  The development embeds the class \<open>ImageDetectionProcessor\<close>. Everything outside the
  script is an explicit parameter (the record \<open>world\<close>): the image files, the MD5 function,
  the YOLO model, what the walk of the corpus root meets, the character tables of the
  interpreter, and a schedule that says which database call raises. The processor's own
  state (the record \<open>state\<close>) holds the two tables the script touches, the rows inserted in
  the connection's open transaction and whether that transaction has failed, the number of
  database calls made so far, what was logged, and the images handed to the model.
  The field \<open>processed_images\<close> of the class is initialised and never read or written
  again, so it has no counterpart here.
\<close>

subsection \<open>Strings, paths and file names\<close>

text \<open>A Python \<open>str\<close> is a sequence of Unicode code points. \<open>ascii\<close> writes one from a
  literal of ASCII characters.\<close>

type_synonym codepoint = nat

type_synonym str = "codepoint list"

definition ascii :: "string \<Rightarrow> str" where
  "ascii s = map of_char s"

text \<open>A \<open>Path\<close> is the list of its components (\<open>Path.parts\<close>); the images found under the
  relative \<open>IMAGES_DIR\<close> are relative paths, so the last component is \<open>Path.name\<close>.\<close>

type_synonym path = "str list"

definition name :: "path \<Rightarrow> str" where
  "name p = (if p = [] then [] else last p)"

text \<open>\<open>str.rfind\<close>: the index of the last occurrence of a character.\<close>

fun rfind :: "codepoint \<Rightarrow> str \<Rightarrow> nat option" where
  "rfind c [] = None"
| "rfind c (x # xs) =
     (case rfind c xs of
        Some i \<Rightarrow> Some (Suc i)
      | None \<Rightarrow> if x = c then Some 0 else None)"

text \<open>\<open>PurePath.suffix\<close> and \<open>PurePath.stem\<close>: the name is split at its last dot (code point
  46), unless that dot is the first or the last character of the name.\<close>

definition suffix :: "path \<Rightarrow> str" where
  "suffix p =
     (case rfind 46 (name p) of
        Some i \<Rightarrow> if 0 < i \<and> i < length (name p) - 1 then drop i (name p) else []
      | None \<Rightarrow> [])"

definition stem :: "path \<Rightarrow> str" where
  "stem p =
     (case rfind 46 (name p) of
        Some i \<Rightarrow> if 0 < i \<and> i < length (name p) - 1 then take i (name p) else name p
      | None \<Rightarrow> name p)"

definition IMAGE_EXTENSIONS :: "str list" where
  "IMAGE_EXTENSIONS =
     map ascii [''.jpg'', ''.jpeg'', ''.png'', ''.bmp'', ''.gif'', ''.tiff'', ''.webp'']"

definition CONFIDENCE_THRESHOLD :: real where
  "CONFIDENCE_THRESHOLD = 0.3"

definition IMAGES_DIR :: path where
  "IMAGES_DIR = map ascii [''data'', ''raw'', ''telegram_images'']"

text \<open>The channel names written into \<open>get_message_id_for_image\<close>.\<close>

definition known_channels :: "str list" where
  "known_channels = map ascii [''CheMed123'', ''lobelia4cosmetics'', ''tikvahpharma'']"

subsection \<open>Data\<close>

text \<open>One row of \<open>raw.image_detections\<close>, with the ten columns the script writes; the
  columns \<open>id\<close>, \<open>detection_date\<close> and \<open>model_version\<close> are filled by the database.\<close>

record detection =
  image_path :: path
  image_hash :: string
  message_id :: "int option"
  channel_name :: "str option"
  detected_object_class :: str
  confidence_score :: real
  bbox_x1 :: real
  bbox_y1 :: real
  bbox_x2 :: real
  bbox_y2 :: real

text \<open>What the model returns: a list of results, each with optional boxes and the table of
  class names; a box carries its class index, its confidence and its corners.\<close>

record box =
  cls :: int
  conf :: real
  xyxy :: "real \<times> real \<times> real \<times> real"

record yolo_result =
  boxes :: "box list option"
  names :: "int \<rightharpoonup> str"

datatype exn = OSError | DatabaseError

text \<open>What the walk of the corpus meets. An entry that \<open>rglob("*")\<close> yields is a regular
  file, or something else, or examining it raises an \<open>OSError\<close> (\<open>is_file()\<close> re-raises
  every error but a missing or looping path, so a directory without search permission makes
  it raise). The root itself is missing (\<open>exists()\<close> answers \<open>False\<close>), or \<open>exists()\<close> raises
  for the same reason, or the walk yields a list of entries. A root whose listing is denied
  yields no entry: the walk swallows that error.\<close>

datatype entry_kind = Regular_file | Not_a_file | Raises

datatype corpus_root =
    Root_missing
  | Root_raises
  | Root_tree "(path \<times> entry_kind) list"

type_synonym bytes = "8 word list"

text \<open>
  The environment of one run.
  \<^item> \<open>files p\<close> is the content of the file \<open>p\<close>, or \<open>None\<close> when opening or reading it raises;
  \<^item> \<open>md5\<close> is the digest function of \<open>hashlib\<close>;
  \<^item> \<open>yolo_model p c\<close> is the answer of the model on image \<open>p\<close> with \<open>conf=c\<close>, or \<open>None\<close>
    when the call raises;
  \<^item> \<open>corpus\<close> is what the walk of \<open>IMAGES_DIR\<close> meets;
  \<^item> \<open>db_fault n\<close> says that the \<open>n\<close>-th call on the database connection raises by itself;
  \<^item> \<open>lower\<close> is \<open>str.lower\<close>;
  \<^item> \<open>decimal c\<close> is the value of the code point \<open>c\<close> as a decimal digit in the Unicode table
    of the interpreter, \<open>None\<close> for every other character: the class \<open>\d\<close> of a pattern on
    \<open>str\<close> and the digits that \<open>int()\<close> reads are the characters of that table;
  \<^item> \<open>max_str_digits\<close> is the interpreter's limit on the length of a string converted by
    \<open>int()\<close>, 0 for no limit.
\<close>

record world =
  files :: "path \<Rightarrow> bytes option"
  md5 :: "bytes \<Rightarrow> 128 word"
  yolo_model :: "path \<Rightarrow> real \<Rightarrow> yolo_result list option"
  corpus :: corpus_root
  db_fault :: "nat \<Rightarrow> bool"
  lower :: "str \<Rightarrow> str"
  decimal :: "codepoint \<Rightarrow> nat option"
  max_str_digits :: nat

datatype log_entry =
    Error_hash path
  | Error_check
  | Error_message_id path
  | Info_skipping str
  | Info_found nat str
  | Error_process path
  | Info_saved nat
  | Error_save
  | Warning_no_directory
  | Info_found_images nat
  | Info_no_images
  | Error_processing path
  | Info_complete nat nat nat

text \<open>
  The processor and the database behind its connection.
  \<^item> \<open>detections\<close>: the committed rows of \<open>raw.image_detections\<close>, oldest first;
  \<^item> \<open>txn\<close>: the rows inserted by the open transaction, not yet committed;
  \<^item> \<open>aborted\<close>: a statement of the open transaction has raised, and no \<open>rollback\<close> has
    returned since;
  \<^item> \<open>messages\<close>: the \<open>(id, channel)\<close> columns of \<open>raw.telegram_messages\<close>;
  \<^item> \<open>tick\<close>: the number of calls made on the connection;
  \<^item> \<open>logged\<close>: the messages given to the logger, oldest first;
  \<^item> \<open>inferred\<close>: the images on which the model was called, oldest first.
\<close>

record state =
  detections :: "detection list"
  txn :: "detection list"
  aborted :: bool
  messages :: "(int \<times> str) list"
  tick :: nat
  logged :: "log_entry list"
  inferred :: "path list"

definition say :: "log_entry \<Rightarrow> state \<Rightarrow> state" where
  "say e s = s\<lparr>logged := logged s @ [e]\<rparr>"

subsection \<open>The database connection\<close>

text \<open>
  \<open>connect_db\<close> opens the connection without \<open>autocommit\<close>, so the statements of the script
  run inside one open transaction until \<open>commit\<close> or \<open>rollback\<close>.
  \<^item> A statement raises when the schedule of the world says so, and also whenever an
    earlier statement of the open transaction has raised: the transaction is then failed,
    and the server refuses every statement until the transaction is rolled back. A
    statement reads the committed rows and the rows of its own transaction.
  \<^item> \<open>commit\<close> makes the inserted rows permanent. When it raises, nothing is committed. On a
    failed transaction the server answers a commit with a rollback and nothing raises; the
    script reaches \<open>commit\<close> only after statements that succeeded.
  \<^item> \<open>rollback\<close> drops the inserted rows. It raises only on a closed or broken connection,
    whose transaction the server has dropped as well; the connection then stays unusable.
  Every call counts as one call of the schedule.
\<close>

definition execute :: "world \<Rightarrow> state \<Rightarrow> bool \<times> state" where
  "execute w s =
     (if aborted s \<or> db_fault w (tick s)
      then (False, s\<lparr>tick := Suc (tick s), aborted := True\<rparr>)
      else (True, s\<lparr>tick := Suc (tick s)\<rparr>))"

definition commit :: "world \<Rightarrow> state \<Rightarrow> bool \<times> state" where
  "commit w s =
     (if db_fault w (tick s)
      then (False, s\<lparr>tick := Suc (tick s), aborted := True\<rparr>)
      else if aborted s
      then (True, s\<lparr>tick := Suc (tick s), txn := [], aborted := False\<rparr>)
      else (True, s\<lparr>tick := Suc (tick s), detections := detections s @ txn s, txn := []\<rparr>))"

definition rollback :: "world \<Rightarrow> state \<Rightarrow> bool \<times> state" where
  "rollback w s =
     (if db_fault w (tick s)
      then (False, s\<lparr>tick := Suc (tick s), txn := [], aborted := True\<rparr>)
      else (True, s\<lparr>tick := Suc (tick s), txn := [], aborted := False\<rparr>))"

subsection \<open>Hashing\<close>

definition hexdigit :: "nat \<Rightarrow> char" where
  "hexdigit n = ''0123456789abcdef'' ! n"

text \<open>\<open>hexdigest()\<close>: the 32 hexadecimal digits of the 128-bit digest, highest first.\<close>

definition hexdigest :: "128 word \<Rightarrow> string" where
  "hexdigest d = map (\<lambda>i. hexdigit (unat (drop_bit (4 * (31 - i)) d AND 15))) [0..<32]"

definition get_image_hash :: "world \<Rightarrow> path \<Rightarrow> state \<Rightarrow> string \<times> state" where
  "get_image_hash w p s =
     (case files w p of
        Some content \<Rightarrow> (hexdigest (md5 w content), s)
      | None \<Rightarrow> ([], say (Error_hash p) s))"

definition is_image_processed :: "world \<Rightarrow> string \<Rightarrow> state \<Rightarrow> bool \<times> state" where
  "is_image_processed w h s =
     (case execute w s of
        (True, s1) \<Rightarrow>
          (0 < length (filter (\<lambda>d. image_hash d = h) (detections s1 @ txn s1)), s1)
      | (False, s1) \<Rightarrow> (False, say Error_check s1))"

subsection \<open>Correlating an image with a message\<close>

text \<open>The loop over \<open>path_parts\<close> with its \<open>break\<close>.\<close>

fun find_channel :: "str list \<Rightarrow> str option" where
  "find_channel [] = None"
| "find_channel (part # parts) =
     (if part \<in> set known_channels then Some part else find_channel parts)"

text \<open>\<open>\d\<close>: a decimal digit of the Unicode table.\<close>

definition is_digit :: "world \<Rightarrow> codepoint \<Rightarrow> bool" where
  "is_digit w c = (decimal w c \<noteq> None)"

text \<open>\<open>re.search(r'(\d+)', filename)\<close>: the search tries each position from the left, and
  at the first one where a digit stands the greedy \<open>\d+\<close> takes all digits that follow.\<close>

fun re_search_digits :: "world \<Rightarrow> str \<Rightarrow> str option" where
  "re_search_digits w [] = None"
| "re_search_digits w (c # cs) =
     (if is_digit w c then Some (c # takeWhile (is_digit w) cs) else re_search_digits w cs)"

text \<open>\<open>int(match.group(1))\<close>. The argument is a string of digits here; \<open>int()\<close> reads the
  decimal digits of every script, raises \<open>ValueError\<close> on a character that is no digit, on
  the empty string, and on a string longer than the limit of the interpreter.\<close>

fun digits_value :: "world \<Rightarrow> int \<Rightarrow> str \<Rightarrow> int option" where
  "digits_value w a [] = Some a"
| "digits_value w a (c # cs) =
     (case decimal w c of
        None \<Rightarrow> None
      | Some v \<Rightarrow> digits_value w (10 * a + int v) cs)"

definition py_int :: "world \<Rightarrow> str \<Rightarrow> int option" where
  "py_int w ds =
     (if ds = [] \<or> (0 < max_str_digits w \<and> max_str_digits w < length ds) then None
      else digits_value w 0 ds)"

definition get_message_id_for_image ::
  "world \<Rightarrow> path \<Rightarrow> state \<Rightarrow> (int option \<times> str option) \<times> state" where
  "get_message_id_for_image w p s =
     (case find_channel p of
        None \<Rightarrow> ((None, None), s)
      | Some channel \<Rightarrow>
          (case re_search_digits w (stem p) of
             None \<Rightarrow> ((None, Some channel), s)
           | Some ds \<Rightarrow>
               (case py_int w ds of
                  None \<Rightarrow> ((None, None), say (Error_message_id p) s)
                | Some potential_message_id \<Rightarrow>
                    (case execute w s of
                       (True, s1) \<Rightarrow>
                         if (potential_message_id, channel) \<in> set (messages s1)
                         then ((Some potential_message_id, Some channel), s1)
                         else ((None, Some channel), s1)
                     | (False, s1) \<Rightarrow> ((None, None), say (Error_message_id p) s1)))))"

subsection \<open>Detection\<close>

text \<open>The two nested loops of \<open>process_image\<close>. Looking up a class index that the table of
  names lacks raises \<open>KeyError\<close>, which is \<open>None\<close> here.\<close>

fun box_rows ::
  "path \<Rightarrow> string \<Rightarrow> int option \<Rightarrow> str option \<Rightarrow> (int \<rightharpoonup> str) \<Rightarrow> box list
     \<Rightarrow> detection list option" where
  "box_rows p h m c nm [] = Some []"
| "box_rows p h m c nm (b # bs) =
     (case nm (cls b) of
        None \<Rightarrow> None
      | Some label \<Rightarrow>
          (case box_rows p h m c nm bs of
             None \<Rightarrow> None
           | Some ds \<Rightarrow>
               Some (\<lparr>image_path = p, image_hash = h, message_id = m, channel_name = c,
                      detected_object_class = label, confidence_score = conf b,
                      bbox_x1 = fst (xyxy b), bbox_y1 = fst (snd (xyxy b)),
                      bbox_x2 = fst (snd (snd (xyxy b))),
                      bbox_y2 = snd (snd (snd (xyxy b)))\<rparr> # ds)))"

fun result_rows ::
  "path \<Rightarrow> string \<Rightarrow> int option \<Rightarrow> str option \<Rightarrow> yolo_result list
     \<Rightarrow> detection list option" where
  "result_rows p h m c [] = Some []"
| "result_rows p h m c (r # rs) =
     (case boxes r of
        None \<Rightarrow> result_rows p h m c rs
      | Some bs \<Rightarrow>
          (case box_rows p h m c (names r) bs of
             None \<Rightarrow> None
           | Some ds \<Rightarrow>
               (case result_rows p h m c rs of
                  None \<Rightarrow> None
                | Some es \<Rightarrow> Some (ds @ es))))"

text \<open>The part of \<open>process_image\<close> after the correlation: the call of the model and the
  conversion of its answer. Whatever raises is caught by the outer \<open>except\<close>, which logs and
  returns the empty list.\<close>

definition run_yolo ::
  "world \<Rightarrow> path \<Rightarrow> string \<Rightarrow> int option \<Rightarrow> str option \<Rightarrow> state
     \<Rightarrow> detection list \<times> state" where
  "run_yolo w p h m c s =
     (let s1 = s\<lparr>inferred := inferred s @ [p]\<rparr> in
      case yolo_model w p CONFIDENCE_THRESHOLD of
        None \<Rightarrow> ([], say (Error_process p) s1)
      | Some results \<Rightarrow>
          (case result_rows p h m c results of
             None \<Rightarrow> ([], say (Error_process p) s1)
           | Some ds \<Rightarrow> (ds, say (Info_found (length ds) (name p)) s1)))"

definition process_image :: "world \<Rightarrow> path \<Rightarrow> state \<Rightarrow> detection list \<times> state" where
  "process_image w p s =
     (case get_image_hash w p s of
        (h, s1) \<Rightarrow>
          if h = [] then ([], s1)
          else
            (case is_image_processed w h s1 of
               (True, s2) \<Rightarrow> ([], say (Info_skipping (name p)) s2)
             | (False, s2) \<Rightarrow>
                 (case get_message_id_for_image w p s2 of
                    ((m, c), s3) \<Rightarrow> run_yolo w p h m c s3)))"

subsection \<open>Saving\<close>

text \<open>The loop of \<open>INSERT\<close> statements; the first one that raises ends it.\<close>

fun insert_all :: "world \<Rightarrow> detection list \<Rightarrow> state \<Rightarrow> bool \<times> state" where
  "insert_all w [] s = (True, s)"
| "insert_all w (d # ds) s =
     (case execute w s of
        (True, s1) \<Rightarrow> insert_all w ds (s1\<lparr>txn := txn s1 @ [d]\<rparr>)
      | (False, s1) \<Rightarrow> (False, s1))"

text \<open>\<open>save_detections\<close> returns \<open>None\<close> when it returns normally, and the exception when the
  \<open>rollback\<close> in its handler raises.\<close>

definition save_detections :: "world \<Rightarrow> detection list \<Rightarrow> state \<Rightarrow> exn option \<times> state" where
  "save_detections w ds s =
     (if ds = [] then (None, s)
      else
        (case (case insert_all w ds s of
                 (True, s1) \<Rightarrow> commit w s1
               | (False, s1) \<Rightarrow> (False, s1)) of
           (True, s2) \<Rightarrow> (None, say (Info_saved (length ds)) s2)
         | (False, s2) \<Rightarrow>
             (case rollback w (say Error_save s2) of
                (True, s3) \<Rightarrow> (None, s3)
              | (False, s3) \<Rightarrow> (Some DatabaseError, s3))))"

subsection \<open>The run\<close>

text \<open>The loop of \<open>find_images\<close> over what the walk yields. Nothing in \<open>find_images\<close> catches
  an exception, so the first entry whose examination raises ends the function.\<close>

fun collect_images :: "world \<Rightarrow> (path \<times> entry_kind) list \<Rightarrow> exn + path list" where
  "collect_images w [] = Inr []"
| "collect_images w ((p, Raises) # entries) = Inl OSError"
| "collect_images w ((p, Not_a_file) # entries) = collect_images w entries"
| "collect_images w ((p, Regular_file) # entries) =
     (case collect_images w entries of
        Inl e \<Rightarrow> Inl e
      | Inr images \<Rightarrow>
          Inr (if lower w (suffix p) \<in> set IMAGE_EXTENSIONS then p # images else images))"

definition find_images :: "world \<Rightarrow> state \<Rightarrow> (exn + path list) \<times> state" where
  "find_images w s =
     (case corpus w of
        Root_raises \<Rightarrow> (Inl OSError, s)
      | Root_missing \<Rightarrow> (Inr [], say Warning_no_directory s)
      | Root_tree entries \<Rightarrow>
          (case collect_images w entries of
             Inl e \<Rightarrow> (Inl e, s)
           | Inr images \<Rightarrow> (Inr images, say (Info_found_images (length images)) s)))"

text \<open>The loop of \<open>process_all_images\<close>, with its two counters \<open>processed_count\<close> and
  \<open>total_detections\<close>.\<close>

fun process_loop :: "world \<Rightarrow> path list \<Rightarrow> nat \<times> nat \<Rightarrow> state \<Rightarrow> (nat \<times> nat) \<times> state" where
  "process_loop w [] counts s = (counts, s)"
| "process_loop w (p # ps) counts s =
     (case process_image w p s of
        (ds, s1) \<Rightarrow>
          if ds \<noteq> [] then
            (case save_detections w ds s1 of
               (None, s2) \<Rightarrow>
                 process_loop w ps (fst counts + 1, snd counts + length ds) s2
             | (Some e, s2) \<Rightarrow> process_loop w ps counts (say (Error_processing p) s2))
          else process_loop w ps counts s1)"

definition process_all_images :: "world \<Rightarrow> state \<Rightarrow> exn option \<times> state" where
  "process_all_images w s =
     (case find_images w s of
        (Inl e, s1) \<Rightarrow> (Some e, s1)
      | (Inr images, s1) \<Rightarrow>
          if images = [] then (None, say Info_no_images s1)
          else
            (case process_loop w images (0, 0) s1 of
               ((processed_count, total_detections), s2) \<Rightarrow>
                 (None, say (Info_complete processed_count (length images) total_detections) s2)))"

subsection \<open>The correlator as the specification words it\<close>

text \<open>The reference algorithm of the specification, kept apart from the code's
  \<open>get_message_id_for_image\<close>: the channel is the first path component in the known
  channel set, the candidate is the first run of digits of the base name without its
  extension, read as a number in base ten, and the candidate is accepted only when the
  message store holds that identifier under that channel. A digit is a decimal digit of
  any script, with the value the table of the world gives it.\<close>

definition spec_first_digit_run :: "world \<Rightarrow> str \<Rightarrow> str option" where
  "spec_first_digit_run w s =
     (let run = takeWhile (is_digit w) (dropWhile (\<lambda>c. \<not> is_digit w c) s)
      in if run = [] then None else Some run)"

definition spec_number :: "world \<Rightarrow> str \<Rightarrow> int" where
  "spec_number w ds =
     (\<Sum>i<length ds. int (case decimal w (ds ! i) of None \<Rightarrow> 0 | Some v \<Rightarrow> v) *
        10 ^ (length ds - 1 - i))"

definition spec_correlate ::
  "world \<Rightarrow> str list \<Rightarrow> (int \<times> str) list \<Rightarrow> path \<Rightarrow> int option \<times> str option" where
  "spec_correlate w known store p =
     (case List.find (\<lambda>part. part \<in> set known) p of
        None \<Rightarrow> (None, None)
      | Some channel \<Rightarrow>
          (case spec_first_digit_run w (stem p) of
             None \<Rightarrow> (None, Some channel)
           | Some ds \<Rightarrow>
               if (spec_number w ds, channel) \<in> set store
               then (Some (spec_number w ds), Some channel)
               else (None, Some channel)))"

subsection \<open>Predicates on rows and log entries\<close>

text \<open>A row is correlated when its message identifier, if it has one, comes with a channel
  and the message store has that identifier under that channel.\<close>

definition correlated :: "(int \<times> str) list \<Rightarrow> detection \<Rightarrow> bool" where
  "correlated store d =
     (case message_id d of
        None \<Rightarrow> True
      | Some m \<Rightarrow>
          (case channel_name d of
             None \<Rightarrow> False
           | Some c \<Rightarrow> (m, c) \<in> set store))"

text \<open>The log entries with which \<open>process_image\<close> ends: the hash failed, the image was
  skipped, the detections were counted, or the processing failed.\<close>

fun outcome_entry :: "log_entry \<Rightarrow> bool" where
  "outcome_entry (Error_hash p) = True"
| "outcome_entry (Info_skipping n) = True"
| "outcome_entry (Info_found k n) = True"
| "outcome_entry (Error_process p) = True"
| "outcome_entry e = False"

text \<open>The number of images whose processing has reached its end, as the log tells it.\<close>

definition outcomes :: "state \<Rightarrow> nat" where
  "outcomes s = length (filter outcome_entry (logged s))"

text \<open>The readable images whose fingerprint no row of the given list carries.\<close>

definition unseen :: "world \<Rightarrow> detection list \<Rightarrow> path \<Rightarrow> bool" where
  "unseen w rows p =
     (case files w p of
        None \<Rightarrow> False
      | Some content \<Rightarrow> hexdigest (md5 w content) \<notin> image_hash ` set rows)"

text \<open>The next call on the connection raises: the transaction has failed, or the schedule
  says so.\<close>

definition raises :: "world \<Rightarrow> state \<Rightarrow> bool" where
  "raises w s = (aborted s \<or> db_fault w (tick s))"

subsection \<open>A small corpus\<close>

text \<open>The scenario of the specification: the image \<open>tikvahpharma/1001.jpg\<close>, the message
  1001 of that channel in the message store, and a model that reports the boxes it is
  given when their confidence reaches the threshold it is called with. A second file has the
  same bytes under another name, a third one cannot be read, and a fourth one is named with
  the Arabic-Indic digits of 123. The character tables are cut down to what the names need:
  the Latin capital letters for \<open>lower\<close>, the ASCII and the Arabic-Indic digits for
  \<open>decimal\<close>.\<close>

definition ex_path :: path where
  "ex_path = IMAGES_DIR @ map ascii [''tikvahpharma'', ''1001.jpg'']"

definition ex_copy :: path where
  "ex_copy = IMAGES_DIR @ map ascii [''CheMed123'', ''renamed.PNG'']"

definition ex_gone :: path where
  "ex_gone = IMAGES_DIR @ map ascii [''CheMed123'', ''gone.jpg'']"

definition ex_arabic :: path where
  "ex_arabic = IMAGES_DIR @ [ascii ''tikvahpharma'', [1633, 1634, 1635] @ ascii ''.jpg'']"

definition ex_box :: box where
  "ex_box = \<lparr>cls = 0, conf = 0.92, xyxy = (10, 10, 50, 50)\<rparr>"

definition ex_lower :: "str \<Rightarrow> str" where
  "ex_lower s = map (\<lambda>c. if 65 \<le> c \<and> c \<le> 90 then c + 32 else c) s"

definition ex_decimal :: "codepoint \<Rightarrow> nat option" where
  "ex_decimal c =
     (if 48 \<le> c \<and> c \<le> 57 then Some (c - 48)
      else if 1632 \<le> c \<and> c \<le> 1641 then Some (c - 1632)
      else None)"

definition ex_world :: "box list \<Rightarrow> (nat \<Rightarrow> bool) \<Rightarrow> world" where
  "ex_world bs faults =
     \<lparr>files = (\<lambda>p. if p = ex_path \<or> p = ex_copy then Some [1, 2, 3] else None),
      md5 = (\<lambda>content. word_of_nat (length content)),
      yolo_model = (\<lambda>p c. Some [\<lparr>boxes = Some (filter (\<lambda>b. c \<le> conf b) bs),
                                    names = [0 \<mapsto> ascii ''box'']\<rparr>]),
      corpus = Root_tree [(ex_path, Regular_file)],
      db_fault = faults,
      lower = ex_lower,
      decimal = ex_decimal,
      max_str_digits = 4300\<rparr>"

definition ex_state :: state where
  "ex_state =
     \<lparr>detections = [], txn = [], aborted = False,
      messages = [(1001, ascii ''tikvahpharma''), (123, ascii ''tikvahpharma'')], tick = 0,
      logged = [], inferred = []\<rparr>"

definition ex_row :: detection where
  "ex_row =
     \<lparr>image_path = ex_path, image_hash = hexdigest 3, message_id = Some 1001,
      channel_name = Some (ascii ''tikvahpharma''), detected_object_class = ascii ''box'',
      confidence_score = 0.92, bbox_x1 = 10, bbox_y1 = 10, bbox_x2 = 50, bbox_y2 = 50\<rparr>"

section \<open>Properties\<close>

subsection \<open>Auxiliary facts\<close>

lemma say_simps:
  "detections (say e s) = detections s" "txn (say e s) = txn s"
  "messages (say e s) = messages s" "tick (say e s) = tick s"
  "inferred (say e s) = inferred s" "logged (say e s) = logged s @ [e]"
  "aborted (say e s) = aborted s"
  by (simp_all add: say_def)

lemma raises_say: "raises w (say e s) = raises w s"
  by (simp add: raises_def say_def)

lemma execute_fst: "fst (execute w s) = (\<not> raises w s)"
  by (simp add: execute_def raises_def)

lemma execute_frame:
  "detections (snd (execute w s)) = detections s"
  "txn (snd (execute w s)) = txn s"
  "messages (snd (execute w s)) = messages s"
  "tick (snd (execute w s)) = Suc (tick s)"
  "inferred (snd (execute w s)) = inferred s"
  "logged (snd (execute w s)) = logged s"
  "aborted (snd (execute w s)) = raises w s"
  by (simp_all add: execute_def raises_def)

lemma execute_ok:
  "\<not> raises w s \<Longrightarrow> execute w s = (True, s\<lparr>tick := Suc (tick s)\<rparr>)"
  by (simp add: execute_def raises_def)

lemma execute_raises:
  "raises w s \<Longrightarrow> execute w s = (False, s\<lparr>tick := Suc (tick s), aborted := True\<rparr>)"
  by (simp add: execute_def raises_def)

lemma hexdigest_nonempty: "hexdigest d \<noteq> []"
  by (simp add: hexdigest_def)

lemma length_hexdigest: "length (hexdigest d) = 32"
  by (simp add: hexdigest_def)

lemma get_image_hash_frame:
  "detections (snd (get_image_hash w p s)) = detections s"
  "txn (snd (get_image_hash w p s)) = txn s"
  "messages (snd (get_image_hash w p s)) = messages s"
  "tick (snd (get_image_hash w p s)) = tick s"
  "inferred (snd (get_image_hash w p s)) = inferred s"
  "aborted (snd (get_image_hash w p s)) = aborted s"
  by (simp_all add: get_image_hash_def say_simps split: option.splits)

lemma is_image_processed_frame:
  "detections (snd (is_image_processed w h s)) = detections s"
  "txn (snd (is_image_processed w h s)) = txn s"
  "messages (snd (is_image_processed w h s)) = messages s"
  "tick (snd (is_image_processed w h s)) = Suc (tick s)"
  "inferred (snd (is_image_processed w h s)) = inferred s"
  "aborted (snd (is_image_processed w h s)) = raises w s"
  by (simp_all add: is_image_processed_def execute_def raises_def say_simps)

lemma is_image_processed_value:
  "fst (is_image_processed w h s) =
     (\<not> raises w s \<and> h \<in> image_hash ` set (detections s @ txn s))"
  by (auto simp add: is_image_processed_def execute_def raises_def filter_empty_conv)

lemma is_image_processed_raises:
  "raises w s \<Longrightarrow>
     is_image_processed w h s =
       (False, say Error_check (s\<lparr>tick := Suc (tick s), aborted := True\<rparr>))"
  by (simp add: is_image_processed_def execute_raises)

lemma get_message_id_frame:
  "detections (snd (get_message_id_for_image w p s)) = detections s"
  "txn (snd (get_message_id_for_image w p s)) = txn s"
  "messages (snd (get_message_id_for_image w p s)) = messages s"
  "inferred (snd (get_message_id_for_image w p s)) = inferred s"
  by (simp_all add: get_message_id_for_image_def execute_def say_simps split: option.splits)

lemma get_message_id_aborted:
  "aborted s \<Longrightarrow> aborted (snd (get_message_id_for_image w p s))"
  by (simp add: get_message_id_for_image_def execute_def say_simps split: option.splits)

lemma get_message_id_quiet:
  "\<not> aborted s \<Longrightarrow> \<forall>n. \<not> db_fault w n \<Longrightarrow> \<not> aborted (snd (get_message_id_for_image w p s))"
  by (simp add: get_message_id_for_image_def execute_def say_simps split: option.splits)

lemma run_yolo_frame:
  "detections (snd (run_yolo w p h m c s)) = detections s"
  "txn (snd (run_yolo w p h m c s)) = txn s"
  "messages (snd (run_yolo w p h m c s)) = messages s"
  "tick (snd (run_yolo w p h m c s)) = tick s"
  "inferred (snd (run_yolo w p h m c s)) = inferred s @ [p]"
  "aborted (snd (run_yolo w p h m c s)) = aborted s"
  by (simp_all add: run_yolo_def Let_def say_simps split: option.splits)

lemma process_image_frame:
  "detections (snd (process_image w p s)) = detections s"
  "txn (snd (process_image w p s)) = txn s"
  "messages (snd (process_image w p s)) = messages s"
  by (simp_all add: process_image_def split_beta say_simps get_image_hash_frame is_image_processed_frame
      get_message_id_frame run_yolo_frame split: bool.splits)

lemma insert_all_frame:
  "detections (snd (insert_all w ds s)) = detections s"
  "messages (snd (insert_all w ds s)) = messages s"
  "logged (snd (insert_all w ds s)) = logged s"
  "inferred (snd (insert_all w ds s)) = inferred s"
  by (induction ds arbitrary: s; simp add: execute_def)+

lemma insert_all_aborted:
  "aborted s \<Longrightarrow> ds \<noteq> [] \<Longrightarrow> \<not> fst (insert_all w ds s)"
  by (cases ds) (simp_all add: execute_def)

lemma insert_all_ok:
  "\<not> aborted s \<Longrightarrow> fst (insert_all w ds s) = (\<forall>k<length ds. \<not> db_fault w (tick s + k))"
proof (induction ds arbitrary: s)
  case Nil
  show ?case by simp
next
  case (Cons d ds)
  show ?case
  proof (cases "db_fault w (tick s)")
    case True
    then have "\<not> (\<forall>k<length (d # ds). \<not> db_fault w (tick s + k))"
      by (intro notI) (drule spec [of _ 0], simp)
    with True show ?thesis by (simp add: execute_def)
  next
    case False
    have "(\<forall>k<length (d # ds). \<not> db_fault w (tick s + k)) =
          (\<forall>k<length ds. \<not> db_fault w (Suc (tick s) + k))"
      using False by (auto simp add: less_Suc_eq_0_disj)
    with False Cons.prems show ?thesis by (simp add: execute_def Cons.IH)
  qed
qed

lemma insert_all_txn:
  "fst (insert_all w ds s) \<Longrightarrow>
     txn (snd (insert_all w ds s)) = txn s @ ds \<and>
     tick (snd (insert_all w ds s)) = tick s + length ds \<and>
     aborted (snd (insert_all w ds s)) = aborted s"
  by (induction ds arbitrary: s) (auto simp add: execute_def split: if_splits)

lemma save_detections_txn:
  "ds \<noteq> [] \<Longrightarrow> txn (snd (save_detections w ds s)) = []"
  by (simp add: save_detections_def commit_def rollback_def say_def split_beta
      split: bool.splits)

lemma save_detections_messages:
  "messages (snd (save_detections w ds s)) = messages s"
  by (simp add: save_detections_def commit_def rollback_def say_def split_beta
      insert_all_frame split: bool.splits)

lemma save_detections_inferred:
  "inferred (snd (save_detections w ds s)) = inferred s"
  by (simp add: save_detections_def commit_def rollback_def say_def split_beta
      insert_all_frame split: bool.splits)

lemma save_detections_ok:
  assumes "ds \<noteq> []" and "\<not> aborted s" and "\<forall>k\<le>length ds. \<not> db_fault w (tick s + k)"
  shows "fst (save_detections w ds s) = None"
    and "detections (snd (save_detections w ds s)) = detections s @ txn s @ ds"
    and "\<not> aborted (snd (save_detections w ds s))"
proof -
  have ins: "fst (insert_all w ds s)"
    using assms(2,3) by (simp add: insert_all_ok)
  have com: "\<not> db_fault w (tick (snd (insert_all w ds s)))"
    "\<not> aborted (snd (insert_all w ds s))"
    using assms(2,3) insert_all_txn [OF ins] by simp_all
  show "fst (save_detections w ds s) = None"
    using assms(1) ins com
    by (simp add: save_detections_def commit_def split_beta split: bool.splits)
  show "detections (snd (save_detections w ds s)) = detections s @ txn s @ ds"
    using assms(1) ins com insert_all_txn [OF ins]
    by (simp add: save_detections_def commit_def say_def split_beta insert_all_frame
        split: bool.splits)
  show "\<not> aborted (snd (save_detections w ds s))"
    using assms(1) ins com
    by (simp add: save_detections_def commit_def say_def split_beta split: bool.splits)
qed

lemma save_detections_failed:
  assumes "ds \<noteq> []" and "aborted s \<or> (\<exists>k\<le>length ds. db_fault w (tick s + k))"
  shows "detections (snd (save_detections w ds s)) = detections s"
    and "Error_save \<in> set (logged (snd (save_detections w ds s)))"
proof -
  have cases: "\<not> fst (insert_all w ds s) \<or>
      (fst (insert_all w ds s) \<and> db_fault w (tick (snd (insert_all w ds s))))"
  proof (cases "fst (insert_all w ds s)")
    case False
    then show ?thesis by simp
  next
    case True
    with insert_all_aborted [OF _ assms(1), of s w] have quiet: "\<not> aborted s"
      by blast
    with True have "\<forall>k<length ds. \<not> db_fault w (tick s + k)"
      by (simp add: insert_all_ok)
    with assms(2) quiet have "db_fault w (tick s + length ds)"
      by (metis le_neq_implies_less)
    with True insert_all_txn [OF True] show ?thesis by simp
  qed
  from cases show "detections (snd (save_detections w ds s)) = detections s"
    using assms(1)
    by (auto simp add: save_detections_def commit_def rollback_def say_def split_beta
        insert_all_frame split: bool.splits)
  from cases show "Error_save \<in> set (logged (snd (save_detections w ds s)))"
    using assms(1)
    by (auto simp add: save_detections_def commit_def rollback_def say_def split_beta
        insert_all_frame split: bool.splits)
qed

lemma save_detections_cases:
  "detections (snd (save_detections w ds s)) = detections s \<or>
   detections (snd (save_detections w ds s)) = detections s @ txn s @ ds"
proof (cases "ds = []")
  case True
  then show ?thesis by (simp add: save_detections_def)
next
  case False
  show ?thesis
  proof (cases "aborted s \<or> (\<exists>k\<le>length ds. db_fault w (tick s + k))")
    case True
    with False show ?thesis by (simp add: save_detections_failed)
  next
    case False
    with \<open>ds \<noteq> []\<close> show ?thesis by (simp add: save_detections_ok)
  qed
qed

lemmas eval_defs =
  process_all_images_def find_images_def process_image_def get_image_hash_def
  is_image_processed_def get_message_id_for_image_def run_yolo_def save_detections_def
  commit_def rollback_def execute_def say_def suffix_def stem_def name_def ascii_def
  IMAGE_EXTENSIONS_def IMAGES_DIR_def known_channels_def is_digit_def py_int_def
  CONFIDENCE_THRESHOLD_def Let_def
  ex_path_def ex_copy_def ex_gone_def ex_arabic_def ex_box_def ex_lower_def ex_decimal_def
  ex_world_def ex_state_def ex_row_def

lemma process_image_unreadable:
  "files w p = None \<Longrightarrow> process_image w p s = ([], say (Error_hash p) s)"
  by (simp add: process_image_def get_image_hash_def)

lemma process_image_readable:
  "files w p = Some content \<Longrightarrow>
   process_image w p s =
     (case is_image_processed w (hexdigest (md5 w content)) s of
        (True, s2) \<Rightarrow> ([], say (Info_skipping (name p)) s2)
      | (False, s2) \<Rightarrow>
          (case get_message_id_for_image w p s2 of
             ((m, c), s3) \<Rightarrow> run_yolo w p (hexdigest (md5 w content)) m c s3))"
  by (simp add: process_image_def get_image_hash_def hexdigest_nonempty)

lemma process_image_skip:
  assumes "files w p = Some content"
    and "hexdigest (md5 w content) \<in> image_hash ` set (detections s @ txn s)"
    and "\<not> raises w s"
  shows "process_image w p s = ([], say (Info_skipping (name p)) (s\<lparr>tick := Suc (tick s)\<rparr>))"
proof -
  have "is_image_processed w (hexdigest (md5 w content)) s = (True, s\<lparr>tick := Suc (tick s)\<rparr>)"
    using assms(2,3) by (auto simp add: is_image_processed_def execute_ok filter_empty_conv)
  then show ?thesis
    by (simp add: process_image_readable [OF assms(1)])
qed

lemma process_image_inferred:
  assumes "files w p = Some content"
    and "\<not> fst (is_image_processed w (hexdigest (md5 w content)) s)"
  shows "inferred (snd (process_image w p s)) = inferred s @ [p]"
  using assms(2)
  by (simp add: process_image_readable [OF assms(1)] split_beta run_yolo_frame
      get_message_id_frame is_image_processed_frame split: bool.splits)

lemma process_image_raised:
  assumes "files w p = Some content" and "raises w s"
  shows "aborted (snd (process_image w p s))"
  using assms(2) get_message_id_aborted [of "snd (is_image_processed w (hexdigest (md5 w content)) s)" w p]
  by (simp add: process_image_readable [OF assms(1)] split_beta run_yolo_frame
      is_image_processed_frame is_image_processed_value split: bool.splits)

lemma process_image_quiet:
  assumes "\<not> aborted s" and "\<forall>n. \<not> db_fault w n"
  shows "\<not> aborted (snd (process_image w p s))"
proof (cases "files w p")
  case None
  with assms(1) show ?thesis by (simp add: process_image_unreadable say_simps)
next
  case (Some content)
  let ?s2 = "snd (is_image_processed w (hexdigest (md5 w content)) s)"
  have "\<not> aborted ?s2"
    using assms by (simp add: is_image_processed_frame raises_def)
  from this get_message_id_quiet [OF this assms(2), of p] show ?thesis
    by (simp add: process_image_readable [OF Some] split_beta run_yolo_frame say_simps
        split: bool.splits)
qed

lemma box_rows_empty: "box_rows p h m c nm [] = Some []"
  by simp

lemma result_rows_no_boxes:
  "\<forall>r\<in>set rs. boxes r = None \<or> boxes r = Some [] \<Longrightarrow> result_rows p h m c rs = Some []"
  by (induction rs) auto

lemma run_yolo_rows:
  "fst (run_yolo w p h m c s) =
     (case yolo_model w p CONFIDENCE_THRESHOLD of
        None \<Rightarrow> []
      | Some rs \<Rightarrow> (case result_rows p h m c rs of None \<Rightarrow> [] | Some ds \<Rightarrow> ds))"
  by (simp add: run_yolo_def Let_def split: option.splits)

lemma process_image_zero:
  assumes "files w p = Some content"
    and "yolo_model w p CONFIDENCE_THRESHOLD = Some rs"
    and "\<forall>r\<in>set rs. boxes r = None \<or> boxes r = Some []"
  shows "fst (process_image w p s) = []"
  using assms(2) result_rows_no_boxes [OF assms(3)]
  by (simp add: process_image_readable [OF assms(1)] split_beta run_yolo_rows split: bool.splits)

lemma process_loop_nothing:
  "fst (process_image w p s) = [] \<Longrightarrow>
   process_loop w (p # ps) counts s = process_loop w ps counts (snd (process_image w p s))"
  by (simp add: split_beta)

lemma box_rows_fields:
  "box_rows p h m c nm bs = Some ds \<Longrightarrow> d \<in> set ds \<Longrightarrow>
     image_path d = p \<and> image_hash d = h \<and> message_id d = m \<and> channel_name d = c \<and>
     (\<exists>b\<in>set bs. confidence_score d = conf b)"
  by (induction bs arbitrary: ds) (auto split: option.splits)

lemma result_rows_fields:
  "result_rows p h m c rs = Some ds \<Longrightarrow> d \<in> set ds \<Longrightarrow>
     image_path d = p \<and> image_hash d = h \<and> message_id d = m \<and> channel_name d = c \<and>
     (\<exists>r\<in>set rs. \<exists>bs. boxes r = Some bs \<and> (\<exists>b\<in>set bs. confidence_score d = conf b))"
proof (induction rs arbitrary: ds)
  case Nil
  then show ?case by simp
next
  case (Cons r rs)
  show ?case
  proof (cases "boxes r")
    case None
    with Cons show ?thesis by auto
  next
    case (Some bs)
    from Cons.prems(1) Some obtain xs ys where
      xs: "box_rows p h m c (names r) bs = Some xs" and
      ys: "result_rows p h m c rs = Some ys" and ds: "ds = xs @ ys"
      by (auto split: option.splits)
    from Cons.prems(2) ds consider "d \<in> set xs" | "d \<in> set ys" by auto
    then show ?thesis
    proof cases
      case 1
      from box_rows_fields [OF xs 1] Some show ?thesis by auto
    next
      case 2
      from Cons.IH [OF ys 2] show ?thesis by auto
    qed
  qed
qed

lemma run_yolo_fields:
  assumes "d \<in> set (fst (run_yolo w p h m c s))"
  shows "image_path d = p \<and> image_hash d = h \<and> message_id d = m \<and> channel_name d = c \<and>
     (\<exists>rs. yolo_model w p CONFIDENCE_THRESHOLD = Some rs \<and>
        (\<exists>r\<in>set rs. \<exists>bs. boxes r = Some bs \<and> (\<exists>b\<in>set bs. confidence_score d = conf b)))"
proof -
  from assms obtain rs ds where rs: "yolo_model w p CONFIDENCE_THRESHOLD = Some rs"
    and ds: "result_rows p h m c rs = Some ds" and d: "d \<in> set ds"
    by (cases "yolo_model w p CONFIDENCE_THRESHOLD";
        cases "result_rows p h m c (the (yolo_model w p CONFIDENCE_THRESHOLD))")
      (simp_all add: run_yolo_rows)
  from result_rows_fields [OF ds d] rs show ?thesis by simp
qed

lemma process_image_fields:
  assumes "d \<in> set (fst (process_image w p s))"
  shows "\<exists>content. files w p = Some content \<and> image_hash d = hexdigest (md5 w content) \<and>
     (message_id d, channel_name d) =
        fst (get_message_id_for_image w p (snd (is_image_processed w (hexdigest (md5 w content)) s))) \<and>
     (\<exists>rs. yolo_model w p CONFIDENCE_THRESHOLD = Some rs \<and>
        (\<exists>r\<in>set rs. \<exists>bs. boxes r = Some bs \<and> (\<exists>b\<in>set bs. confidence_score d = conf b)))"
proof (cases "files w p")
  case None
  with assms show ?thesis by (simp add: process_image_unreadable)
next
  case (Some content)
  let ?h = "hexdigest (md5 w content)"
  let ?s2 = "snd (is_image_processed w ?h s)"
  let ?mc = "fst (get_message_id_for_image w p ?s2)"
  from assms have "d \<in> set (fst (run_yolo w p ?h (fst ?mc) (snd ?mc)
      (snd (get_message_id_for_image w p ?s2))))"
    by (simp add: process_image_readable [OF Some] split_beta split: bool.splits if_splits)
  from run_yolo_fields [OF this] Some show ?thesis by simp
qed

lemma save_detections_outcomes:
  "outcomes (snd (save_detections w ds s)) = outcomes s"
  by (simp add: outcomes_def save_detections_def commit_def rollback_def execute_def say_def
      split_beta insert_all_frame split: bool.splits)

lemma process_image_outcomes:
  "outcomes (snd (process_image w p s)) = Suc (outcomes s)"
proof (cases "files w p")
  case None
  then show ?thesis
    by (simp add: process_image_unreadable outcomes_def say_def)
next
  case (Some content)
  have look: "outcomes (snd (is_image_processed w h s)) = outcomes s" for h
    by (simp add: outcomes_def is_image_processed_def execute_def say_def split: bool.splits)
  have corr: "outcomes (snd (get_message_id_for_image w p t)) = outcomes t" for t
    by (simp add: outcomes_def get_message_id_for_image_def execute_def say_def
        split: option.splits bool.splits)
  have yolo: "outcomes (snd (run_yolo w p h m c t)) = Suc (outcomes t)" for h m c t
    by (simp add: outcomes_def run_yolo_def Let_def say_def split: option.splits)
  show ?thesis
    by (simp add: process_image_readable [OF Some] split_beta look corr yolo
        split: bool.splits) (simp add: outcomes_def say_def look [unfolded outcomes_def])
qed

lemma process_loop_step:
  obtains counts' s' where
    "\<And>ps. process_loop w (p # ps) counts s = process_loop w ps counts' s'"
    and "messages s' = messages s"
    and "set (detections s) \<subseteq> set (detections s')"
    and "set (detections s' @ txn s') \<subseteq> set (detections s @ txn s) \<union> set (fst (process_image w p s))"
    and "outcomes s' = Suc (outcomes s)"
proof -
  let ?ds = "fst (process_image w p s)"
  let ?s1 = "snd (process_image w p s)"
  let ?s2 = "snd (save_detections w ?ds ?s1)"
  show thesis
  proof (cases "?ds = []")
    case True
    show thesis
    proof (rule that [of counts ?s1])
      show "process_loop w (p # ps) counts s = process_loop w ps counts ?s1" for ps
        by (rule process_loop_nothing [OF True])
    qed (simp_all add: process_image_frame process_image_outcomes)
  next
    case False
    have sub: "set (detections s) \<subseteq> set (detections ?s2)"
      and sup: "set (detections ?s2 @ txn ?s2) \<subseteq> set (detections s @ txn s) \<union> set ?ds"
      using save_detections_cases [of w ?ds ?s1] save_detections_txn [OF False, of w ?s1]
      by (auto simp add: process_image_frame)
    show thesis
    proof (cases "fst (save_detections w ?ds ?s1)")
      case None
      show thesis
      proof (rule that [of "(fst counts + 1, snd counts + length ?ds)" ?s2])
        show "process_loop w (p # ps) counts s =
            process_loop w ps (fst counts + 1, snd counts + length ?ds) ?s2" for ps
          using False None by (simp add: split_beta)
      qed (use sub sup in \<open>simp_all add: save_detections_messages process_image_frame
            save_detections_outcomes process_image_outcomes\<close>)
    next
      case (Some e)
      show thesis
      proof (rule that [of counts "say (Error_processing p) ?s2"])
        show "process_loop w (p # ps) counts s =
            process_loop w ps counts (say (Error_processing p) ?s2)" for ps
          using False Some by (simp add: split_beta)
        show "outcomes (say (Error_processing p) ?s2) = Suc (outcomes s)"
          using save_detections_outcomes [of w ?ds ?s1] process_image_outcomes [of w p s]
          by (simp add: outcomes_def say_def)
      qed (use sub sup in \<open>simp_all add: save_detections_messages process_image_frame say_simps\<close>)
    qed
  qed
qed

lemma process_loop_messages:
  "messages (snd (process_loop w ps counts s)) = messages s"
proof (induction ps arbitrary: counts s)
  case Nil
  show ?case by simp
next
  case (Cons p ps)
  obtain counts' s' where "process_loop w (p # ps) counts s = process_loop w ps counts' s'"
    and "messages s' = messages s"
    by (rule process_loop_step [of w p counts s]) blast
  with Cons.IH [where counts = counts' and s = s'] show ?case by simp
qed

lemma process_loop_outcomes:
  "outcomes (snd (process_loop w ps counts s)) = outcomes s + length ps"
proof (induction ps arbitrary: counts s)
  case Nil
  show ?case by simp
next
  case (Cons p ps)
  obtain counts' s' where "process_loop w (p # ps) counts s = process_loop w ps counts' s'"
    and "outcomes s' = Suc (outcomes s)"
    by (rule process_loop_step [of w p counts s]) blast
  with Cons.IH [where counts = counts' and s = s'] show ?case by simp
qed

lemma process_loop_grows:
  "set (detections s) \<subseteq> set (detections (snd (process_loop w ps counts s)))"
proof (induction ps arbitrary: counts s)
  case Nil
  show ?case by simp
next
  case (Cons p ps)
  obtain counts' s' where "process_loop w (p # ps) counts s = process_loop w ps counts' s'"
    and "set (detections s) \<subseteq> set (detections s')"
    by (rule process_loop_step [of w p counts s]) blast
  with Cons.IH [where counts = counts' and s = s'] show ?case by auto
qed

lemma process_loop_rows:
  assumes step: "\<And>p s d. messages s = M \<Longrightarrow> d \<in> set (fst (process_image w p s)) \<Longrightarrow> P d"
    and "\<forall>d\<in>set (detections s @ txn s). P d"
    and "messages s = M"
  shows "\<forall>d\<in>set (detections (snd (process_loop w ps counts s)) @
                 txn (snd (process_loop w ps counts s))). P d"
  using assms(2,3)
proof (induction ps arbitrary: counts s)
  case Nil
  then show ?case by simp
next
  case (Cons p ps)
  obtain counts' s' where eq: "process_loop w (p # ps) counts s = process_loop w ps counts' s'"
    and msg: "messages s' = messages s"
    and sup: "set (detections s' @ txn s') \<subseteq> set (detections s @ txn s) \<union> set (fst (process_image w p s))"
    by (rule process_loop_step [of w p counts s]) blast
  have "\<forall>d\<in>set (detections s' @ txn s'). P d"
  proof
    fix d
    assume "d \<in> set (detections s' @ txn s')"
    with sup have "d \<in> set (detections s @ txn s) \<or> d \<in> set (fst (process_image w p s))"
      by auto
    then show "P d"
      using Cons.prems step [of s d p] by auto
  qed
  from Cons.IH [OF this, where counts = counts'] msg Cons.prems(2) eq show ?case by simp
qed

lemma find_images_frame:
  "detections (snd (find_images w s)) = detections s"
  "txn (snd (find_images w s)) = txn s"
  "messages (snd (find_images w s)) = messages s"
  "inferred (snd (find_images w s)) = inferred s"
  "tick (snd (find_images w s)) = tick s"
  "aborted (snd (find_images w s)) = aborted s"
  by (simp_all add: find_images_def say_simps split: corpus_root.splits sum.splits)

lemma find_images_outcomes:
  "outcomes (snd (find_images w s)) = outcomes s"
  by (simp add: find_images_def say_def outcomes_def split: corpus_root.splits sum.splits)

lemma find_images_any_state:
  "fst (find_images w s) = fst (find_images w t)"
  by (simp add: find_images_def split: corpus_root.splits sum.splits)

lemma process_all_images_run:
  assumes "fst (find_images w s) = Inr images"
  shows "process_all_images w s =
     (if images = [] then (None, say Info_no_images (snd (find_images w s)))
      else (None, say (Info_complete (fst (fst (process_loop w images (0, 0) (snd (find_images w s)))))
                         (length images)
                         (snd (fst (process_loop w images (0, 0) (snd (find_images w s))))))
                   (snd (process_loop w images (0, 0) (snd (find_images w s))))))"
  using assms by (cases "find_images w s") (simp add: process_all_images_def split_beta)

lemma process_all_images_rows:
  assumes step: "\<And>p s d. messages s = M \<Longrightarrow> d \<in> set (fst (process_image w p s)) \<Longrightarrow> P d"
    and inv: "\<forall>d\<in>set (detections s @ txn s). P d"
    and msg: "messages s = M"
  shows "\<forall>d\<in>set (detections (snd (process_all_images w s))). P d"
proof (cases "fst (find_images w s)")
  case (Inl e)
  then have "snd (process_all_images w s) = snd (find_images w s)"
    by (cases "find_images w s") (simp add: process_all_images_def)
  with inv show ?thesis by (simp add: find_images_frame)
next
  case (Inr images)
  let ?s1 = "snd (find_images w s)"
  have "\<forall>d\<in>set (detections ?s1 @ txn ?s1). P d" and "messages ?s1 = M"
    using inv msg by (simp_all add: find_images_frame)
  from process_loop_rows [where P = P and ps = images and counts = "(0, 0)", OF step this]
  show ?thesis
    using inv by (simp add: process_all_images_run [OF Inr] say_simps find_images_frame)
qed

lemma get_message_id_value:
  "fst (get_message_id_for_image w p s) =
     (case find_channel p of
        None \<Rightarrow> (None, None)
      | Some channel \<Rightarrow>
          (case re_search_digits w (stem p) of
             None \<Rightarrow> (None, Some channel)
           | Some ds \<Rightarrow>
               (case py_int w ds of
                  None \<Rightarrow> (None, None)
                | Some i \<Rightarrow>
                    if raises w s then (None, None)
                    else if (i, channel) \<in> set (messages s)
                    then (Some i, Some channel)
                    else (None, Some channel))))"
  by (simp add: get_message_id_for_image_def execute_def raises_def split: option.splits)

lemma get_message_id_correlated:
  assumes "fst (get_message_id_for_image w p s) = (Some m, c)"
  shows "\<exists>channel. c = Some channel \<and> (m, channel) \<in> set (messages s)"
proof (cases "find_channel p")
  case None
  with assms show ?thesis by (simp add: get_message_id_value)
next
  case channel: (Some channel)
  show ?thesis
  proof (cases "re_search_digits w (stem p)")
    case None
    with assms channel show ?thesis by (simp add: get_message_id_value)
  next
    case ds: (Some ds)
    show ?thesis
    proof (cases "py_int w ds")
      case None
      with assms channel ds show ?thesis by (simp add: get_message_id_value)
    next
      case (Some i)
      with assms channel ds have "c = Some channel \<and> (m, channel) \<in> set (messages s)"
        by (auto simp add: get_message_id_value split: if_splits)
      then show ?thesis by blast
    qed
  qed
qed

lemma process_image_correlated:
  assumes "d \<in> set (fst (process_image w p s))"
  shows "correlated (messages s) d"
proof (cases "message_id d")
  case None
  then show ?thesis by (simp add: correlated_def)
next
  case (Some m)
  from process_image_fields [OF assms] obtain content where
    "(message_id d, channel_name d) =
        fst (get_message_id_for_image w p (snd (is_image_processed w (hexdigest (md5 w content)) s)))"
    by blast
  with Some have "fst (get_message_id_for_image w p
      (snd (is_image_processed w (hexdigest (md5 w content)) s))) = (Some m, channel_name d)"
    by simp
  from get_message_id_correlated [OF this] Some show ?thesis
    by (auto simp add: correlated_def is_image_processed_frame)
qed

lemma box_rows_confidences:
  "box_rows p h m c nm bs = Some ds \<Longrightarrow> map confidence_score ds = map conf bs"
  by (induction bs arbitrary: ds) (auto split: option.splits)

lemma result_rows_confidences:
  "result_rows p h m c rs = Some ds \<Longrightarrow>
     map confidence_score ds =
       concat (map (\<lambda>r. case boxes r of None \<Rightarrow> [] | Some bs \<Rightarrow> map conf bs) rs)"
  by (induction rs arbitrary: ds) (auto split: option.splits simp add: box_rows_confidences)

lemma find_channel_find:
  "find_channel p = List.find (\<lambda>part. part \<in> set known_channels) p"
  by (induction p) simp_all

lemma re_search_digits_first_run:
  "re_search_digits w s = spec_first_digit_run w s"
  by (induction s) (simp_all add: spec_first_digit_run_def)

lemma box_rows_None:
  "(box_rows p h m c nm bs = None) = (\<exists>b\<in>set bs. nm (cls b) = None)"
  by (induction bs) (auto split: option.splits)

lemma box_rows_Some:
  "box_rows p h m c nm bs = Some ds \<Longrightarrow> b \<in> set bs \<Longrightarrow> \<exists>y. nm (cls b) = Some y"
  using box_rows_None [of p h m c nm bs] by auto

lemma result_rows_None:
  "(result_rows p h m c rs = None) =
     (\<exists>r\<in>set rs. \<exists>bs. boxes r = Some bs \<and> (\<exists>b\<in>set bs. names r (cls b) = None))"
  by (induction rs) (auto split: option.splits simp add: box_rows_None dest: box_rows_Some)

lemma result_rows_empty:
  assumes "result_rows p h m c rs = Some ds"
  shows "(ds = []) =
     (concat (map (\<lambda>r. case boxes r of None \<Rightarrow> [] | Some bs \<Rightarrow> map conf bs) rs) = [])"
proof -
  have "(ds = []) = (map confidence_score ds = [])" by simp
  then show ?thesis
    by (simp only: result_rows_confidences [OF assms])
qed

lemma run_yolo_empty_independent:
  "(fst (run_yolo w p h m c s) = []) = (fst (run_yolo w p h m' c' s') = [])"
proof (cases "yolo_model w p CONFIDENCE_THRESHOLD")
  case None
  then show ?thesis by (simp add: run_yolo_rows)
next
  case (Some rs)
  show ?thesis
  proof (cases "result_rows p h m c rs")
    case None
    then have "result_rows p h m' c' rs = None"
      by (simp add: result_rows_None)
    with None Some show ?thesis by (simp add: run_yolo_rows)
  next
    case ds: (Some ds)
    then have "result_rows p h m' c' rs \<noteq> None"
      using result_rows_None [of p h m c rs] result_rows_None [of p h m' c' rs] by simp
    then obtain ds' where ds': "result_rows p h m' c' rs = Some ds'"
      by blast
    from result_rows_empty [OF ds] result_rows_empty [OF ds'] have "(ds = []) = (ds' = [])"
      by simp
    with ds ds' Some show ?thesis by (simp add: run_yolo_rows)
  qed
qed

lemma process_image_rows_run_yolo:
  assumes "files w p = Some content"
    and "\<not> fst (is_image_processed w (hexdigest (md5 w content)) s)"
  shows "(fst (process_image w p s) = []) =
         (fst (run_yolo w p (hexdigest (md5 w content)) None None t) = [])"
proof -
  let ?h = "hexdigest (md5 w content)"
  let ?s2 = "snd (is_image_processed w ?h s)"
  let ?r = "get_message_id_for_image w p ?s2"
  from assms(2) have "fst (process_image w p s) =
      fst (run_yolo w p ?h (fst (fst ?r)) (snd (fst ?r)) (snd ?r))"
    by (simp add: process_image_readable [OF assms(1)] split_beta split: bool.splits)
  then show ?thesis
    using run_yolo_empty_independent [of w p ?h "fst (fst ?r)" "snd (fst ?r)" "snd ?r" None None t]
    by simp
qed

lemma process_loop_step_ok:
  assumes ok: "\<forall>n. \<not> db_fault w n" and t: "txn s = []" and q: "\<not> aborted s"
  obtains counts' s' where
    "\<And>ps. process_loop w (p # ps) counts s = process_loop w ps counts' s'"
    and "detections s' = detections s @ fst (process_image w p s)"
    and "txn s' = []"
    and "\<not> aborted s'"
    and "inferred s' = inferred (snd (process_image w p s))"
    and "fst (process_image w p s) = [] \<Longrightarrow> counts' = counts"
proof -
  let ?ds = "fst (process_image w p s)"
  let ?s1 = "snd (process_image w p s)"
  let ?s2 = "snd (save_detections w ?ds ?s1)"
  have q1: "\<not> aborted ?s1"
    by (rule process_image_quiet [OF q ok])
  show thesis
  proof (cases "?ds = []")
    case True
    show thesis
    proof (rule that [of counts ?s1])
      show "process_loop w (p # ps) counts s = process_loop w ps counts ?s1" for ps
        by (rule process_loop_nothing [OF True])
    qed (simp_all add: process_image_frame True t q1)
  next
    case False
    have saved: "fst (save_detections w ?ds ?s1) = None"
      and rows: "detections ?s2 = detections s @ ?ds"
      and q2: "\<not> aborted ?s2"
      using save_detections_ok [OF False q1, of w] ok t by (simp_all add: process_image_frame)
    show thesis
    proof (rule that [of "(fst counts + 1, snd counts + length ?ds)" ?s2])
      show "process_loop w (p # ps) counts s =
          process_loop w ps (fst counts + 1, snd counts + length ?ds) ?s2" for ps
        using False saved by (simp add: split_beta)
    qed (use False rows q2 in \<open>simp_all add: save_detections_txn save_detections_inferred\<close>)
  qed
qed

lemma process_loop_ok_txn:
  assumes "\<forall>n. \<not> db_fault w n" and "txn s = []" and "\<not> aborted s"
  shows "txn (snd (process_loop w ps counts s)) = [] \<and>
         \<not> aborted (snd (process_loop w ps counts s))"
  using assms(2,3)
proof (induction ps arbitrary: counts s)
  case Nil
  then show ?case by simp
next
  case (Cons p ps)
  obtain counts' s' where "process_loop w (p # ps) counts s = process_loop w ps counts' s'"
    and "txn s' = []" and "\<not> aborted s'"
    by (rule process_loop_step_ok [OF assms(1) Cons.prems, of p counts]) blast
  with Cons.IH [where counts = counts' and s = s'] show ?case by simp
qed

lemma process_loop_marks:
  assumes ok: "\<forall>n. \<not> db_fault w n"
    and "txn s = []"
    and "\<not> aborted s"
    and "p \<in> set ps"
    and f: "files w p = Some content"
    and yields: "fst (run_yolo w p (hexdigest (md5 w content)) None None t) \<noteq> []"
  shows "hexdigest (md5 w content) \<in> image_hash ` set (detections (snd (process_loop w ps counts s)))"
  using assms(2,3,4)
proof (induction ps arbitrary: counts s)
  case Nil
  then show ?case by simp
next
  case (Cons q qs)
  let ?h = "hexdigest (md5 w content)"
  obtain counts' s' where eq: "process_loop w (q # qs) counts s = process_loop w qs counts' s'"
    and rows: "detections s' = detections s @ fst (process_image w q s)"
    and txn: "txn s' = []" and quiet: "\<not> aborted s'"
    by (rule process_loop_step_ok [OF ok Cons.prems(1,2), of q counts]) blast
  show ?case
  proof (cases "p = q")
    case True
    have "?h \<in> image_hash ` set (detections s')"
    proof (cases "?h \<in> image_hash ` set (detections s)")
      case True
      with rows show ?thesis by auto
    next
      case False
      then have no: "\<not> fst (is_image_processed w ?h s)"
        using Cons.prems(1) by (simp add: is_image_processed_value)
      from process_image_rows_run_yolo [OF f no, of t] yields
      have "fst (process_image w p s) \<noteq> []" by simp
      then obtain d where d: "d \<in> set (fst (process_image w p s))"
        by (cases "fst (process_image w p s)") auto
      from process_image_fields [OF d] f have "image_hash d = ?h" by simp
      with d rows \<open>p = q\<close> show ?thesis by force
    qed
    with process_loop_grows [of s' w qs counts'] eq show ?thesis by auto
  next
    case False
    with Cons.prems(3) have "p \<in> set qs" by simp
    from Cons.IH [OF txn quiet this, of counts'] eq show ?thesis by simp
  qed
qed

lemma process_image_settled:
  assumes ok: "\<forall>n. \<not> db_fault w n"
    and marks: "\<And>content. files w p = Some content \<Longrightarrow>
        fst (run_yolo w p (hexdigest (md5 w content)) None None u) \<noteq> [] \<Longrightarrow>
        hexdigest (md5 w content) \<in> image_hash ` set (detections t)"
    and txn: "txn t = []"
    and quiet: "\<not> aborted t"
  shows "fst (process_image w p t) = []"
    and "inferred (snd (process_image w p t)) =
           inferred t @ (if unseen w (detections t) p then [p] else [])"
proof -
  show "fst (process_image w p t) = []"
  proof (cases "files w p")
    case None
    then show ?thesis by (simp add: process_image_unreadable)
  next
    case (Some content)
    let ?h = "hexdigest (md5 w content)"
    show ?thesis
    proof (cases "?h \<in> image_hash ` set (detections t)")
      case True
      from process_image_skip [OF Some, of t] True ok txn quiet show ?thesis
        by (simp add: raises_def)
    next
      case False
      then have no: "\<not> fst (is_image_processed w ?h t)"
        using txn by (simp add: is_image_processed_value)
      from marks [OF Some] False have "fst (run_yolo w p ?h None None u) = []"
        by blast
      with process_image_rows_run_yolo [OF Some no, of u] show ?thesis by simp
    qed
  qed
  show "inferred (snd (process_image w p t)) =
           inferred t @ (if unseen w (detections t) p then [p] else [])"
  proof (cases "files w p")
    case None
    then show ?thesis by (simp add: process_image_unreadable unseen_def say_simps)
  next
    case (Some content)
    let ?h = "hexdigest (md5 w content)"
    show ?thesis
    proof (cases "?h \<in> image_hash ` set (detections t)")
      case True
      from process_image_skip [OF Some, of t] True Some ok txn quiet show ?thesis
        by (simp add: unseen_def say_simps raises_def)
    next
      case False
      then have no: "\<not> fst (is_image_processed w ?h t)"
        using txn by (simp add: is_image_processed_value)
      from process_image_inferred [OF Some no] False Some show ?thesis
        by (simp add: unseen_def)
    qed
  qed
qed

lemma process_loop_settled:
  assumes ok: "\<forall>n. \<not> db_fault w n"
    and marks: "\<And>p content. p \<in> set ps \<Longrightarrow> files w p = Some content \<Longrightarrow>
        fst (run_yolo w p (hexdigest (md5 w content)) None None u) \<noteq> [] \<Longrightarrow>
        hexdigest (md5 w content) \<in> image_hash ` set rows"
    and "detections t = rows" and "txn t = []" and "\<not> aborted t"
  shows "fst (process_loop w ps counts t) = counts \<and>
         detections (snd (process_loop w ps counts t)) = rows \<and>
         inferred (snd (process_loop w ps counts t)) = inferred t @ filter (unseen w rows) ps"
  using assms(2,3,4,5)
proof (induction ps arbitrary: t)
  case Nil
  then show ?case by simp
next
  case (Cons q qs)
  have m: "files w q = Some content \<Longrightarrow>
        fst (run_yolo w q (hexdigest (md5 w content)) None None u) \<noteq> [] \<Longrightarrow>
        hexdigest (md5 w content) \<in> image_hash ` set (detections t)" for content
    using Cons.prems(1) [of q content] Cons.prems(2) by simp
  have empty: "fst (process_image w q t) = []"
    and inf: "inferred (snd (process_image w q t)) =
           inferred t @ (if unseen w (detections t) q then [q] else [])"
    using process_image_settled [OF ok m Cons.prems(3,4)] by blast+
  let ?t1 = "snd (process_image w q t)"
  have step: "process_loop w (q # qs) counts t = process_loop w qs counts ?t1"
    by (rule process_loop_nothing [OF empty])
  have "fst (process_loop w qs counts ?t1) = counts \<and>
         detections (snd (process_loop w qs counts ?t1)) = rows \<and>
         inferred (snd (process_loop w qs counts ?t1)) = inferred ?t1 @ filter (unseen w rows) qs"
  proof (rule Cons.IH)
    show "hexdigest (md5 w content) \<in> image_hash ` set rows"
      if "p \<in> set qs" "files w p = Some content"
        "fst (run_yolo w p (hexdigest (md5 w content)) None None u) \<noteq> []" for p content
      using Cons.prems(1) [of p content] that by simp
  qed (simp_all add: process_image_frame Cons.prems process_image_quiet [OF Cons.prems(4) ok])
  with step inf Cons.prems(2) show ?case by simp
qed

lemma spec_number_Nil: "spec_number w [] = 0"
  by (simp add: spec_number_def)

lemma spec_number_Cons:
  "spec_number w (c # cs) =
     int (case decimal w c of None \<Rightarrow> 0 | Some v \<Rightarrow> v) * 10 ^ length cs + spec_number w cs"
  by (simp add: spec_number_def sum.lessThan_Suc_shift del: sum.lessThan_Suc)

lemma length_ascii: "length (ascii s) = length s"
  by (simp add: ascii_def)

lemma digits_value_spec_number:
  "\<forall>c\<in>set ds. is_digit w c \<Longrightarrow>
     digits_value w a ds = Some (a * 10 ^ length ds + spec_number w ds)"
proof (induction ds arbitrary: a)
  case Nil
  show ?case by (simp add: spec_number_Nil)
next
  case (Cons c cs)
  from Cons.prems obtain v where v: "decimal w c = Some v"
    by (auto simp add: is_digit_def)
  from Cons.prems have "\<forall>c\<in>set cs. is_digit w c" by simp
  from Cons.IH [OF this, of "10 * a + int v"] v show ?case
    by (simp add: spec_number_Cons algebra_simps)
qed

lemma re_search_digits_run:
  "re_search_digits w s = Some ds \<Longrightarrow>
     ds \<noteq> [] \<and> (\<forall>c\<in>set ds. is_digit w c) \<and> length ds \<le> length s"
proof (induction s)
  case Nil
  then show ?case by simp
next
  case (Cons c cs)
  show ?case
  proof (cases "is_digit w c")
    case True
    with Cons.prems have ds: "ds = c # takeWhile (is_digit w) cs" by simp
    have "length (takeWhile (is_digit w) cs) \<le> length cs"
      by (rule length_takeWhile_le)
    with ds True show ?thesis
      by (auto dest: set_takeWhileD)
  next
    case False
    with Cons show ?thesis by auto
  qed
qed

lemma py_int_run:
  assumes "re_search_digits w s = Some ds"
  shows "py_int w ds =
     (if 0 < max_str_digits w \<and> max_str_digits w < length ds then None
      else Some (spec_number w ds))"
  using re_search_digits_run [OF assms] digits_value_spec_number [of ds w 0]
  by (simp add: py_int_def)

lemma get_message_id_refines:
  "fst (get_message_id_for_image w p s) =
     (case (find_channel p, re_search_digits w (stem p)) of
        (Some channel, Some ds) \<Rightarrow>
          if (0 < max_str_digits w \<and> max_str_digits w < length ds) \<or> raises w s
          then (None, None)
          else spec_correlate w known_channels (messages s) p
      | _ \<Rightarrow> spec_correlate w known_channels (messages s) p)"
proof (cases "find_channel p")
  case None
  then show ?thesis
    by (simp add: get_message_id_value spec_correlate_def find_channel_find [symmetric])
next
  case channel: (Some channel)
  show ?thesis
  proof (cases "re_search_digits w (stem p)")
    case None
    with channel show ?thesis
      by (simp add: get_message_id_value spec_correlate_def find_channel_find [symmetric]
          re_search_digits_first_run [symmetric])
  next
    case (Some ds)
    with channel py_int_run [OF Some] show ?thesis
      by (simp add: get_message_id_value spec_correlate_def find_channel_find [symmetric]
          re_search_digits_first_run [symmetric])
  qed
qed

lemma process_loop_raised_lookup:
  assumes f: "files w p = Some content" and r: "raises w s"
  shows "detections (snd (process_loop w [p] counts s)) = detections s"
    and "fst (process_image w p s) \<noteq> [] \<Longrightarrow>
           Error_save \<in> set (logged (snd (process_loop w [p] counts s)))"
proof -
  let ?ds = "fst (process_image w p s)"
  let ?s1 = "snd (process_image w p s)"
  let ?s2 = "snd (save_detections w ?ds ?s1)"
  have failed: "aborted ?s1"
    by (rule process_image_raised [OF f r])
  have loop: "snd (process_loop w [p] counts s) =
      (if ?ds = [] then ?s1
       else if fst (save_detections w ?ds ?s1) = None then ?s2
       else say (Error_processing p) ?s2)"
    by (simp add: split_beta split: option.splits)
  have same: "?ds \<noteq> [] \<Longrightarrow> detections ?s2 = detections s"
    and err: "?ds \<noteq> [] \<Longrightarrow> Error_save \<in> set (logged ?s2)"
    using save_detections_failed [of ?ds ?s1 w] failed by (simp_all add: process_image_frame)
  show "detections (snd (process_loop w [p] counts s)) = detections s"
    using same by (simp only: loop) (simp add: process_image_frame say_simps)
  show "Error_save \<in> set (logged (snd (process_loop w [p] counts s)))" if "?ds \<noteq> []"
    using err [OF that] that by (simp only: loop) (simp add: say_simps)
qed

lemma process_loop_append:
  "process_loop w (xs @ ys) counts s =
     process_loop w ys (fst (process_loop w xs counts s)) (snd (process_loop w xs counts s))"
proof (induction xs arbitrary: counts s)
  case Nil
  show ?case by simp
next
  case (Cons x xs)
  show ?case
    by (simp add: split_beta Cons.IH split: option.splits)
qed

lemma collect_images_raises:
  "(\<exists>e. collect_images w entries = Inl e) = (\<exists>p. (p, Raises) \<in> set entries)"
  by (induction w entries rule: collect_images.induct) (auto split: sum.splits)

lemma collect_images_OSError:
  "collect_images w entries = Inl e \<Longrightarrow> e = OSError"
  by (induction w entries rule: collect_images.induct) (auto split: sum.splits)

lemma find_images_raises:
  "(\<exists>e. fst (find_images w s) = Inl e) =
     (corpus w = Root_raises \<or>
      (\<exists>entries. corpus w = Root_tree entries \<and> (\<exists>p. (p, Raises) \<in> set entries)))"
proof (cases "corpus w")
  case Root_missing
  then show ?thesis by (simp add: find_images_def)
next
  case Root_raises
  then show ?thesis by (simp add: find_images_def)
next
  case (Root_tree entries)
  have "(\<exists>e. fst (find_images w s) = Inl e) = (\<exists>e. collect_images w entries = Inl e)"
    using Root_tree by (cases "collect_images w entries") (simp_all add: find_images_def)
  with Root_tree show ?thesis by (simp add: collect_images_raises)
qed

lemma find_images_raised:
  "fst (find_images w s) = Inl e \<Longrightarrow> find_images w s = (Inl OSError, s)"
proof (cases "corpus w")
  case Root_missing
  assume "fst (find_images w s) = Inl e"
  with Root_missing show ?thesis by (simp add: find_images_def)
next
  case Root_raises
  then show ?thesis by (simp add: find_images_def)
next
  case (Root_tree entries)
  assume "fst (find_images w s) = Inl e"
  with Root_tree show ?thesis
    by (cases "collect_images w entries")
      (auto simp add: find_images_def dest: collect_images_OSError)
qed

subsection \<open>C1: an image without detections\<close>

text \<open>
  Claim C1, as amended. When the model finds nothing in an image (every result has no
  boxes), processing the image persists nothing: the loop leaves its counters, the committed
  rows and the open transaction as they were. An image whose fingerprint was not in the
  store is therefore still not recorded as processed, and processing it again calls the model
  again. This holds whichever database calls raise.
\<close>

theorem zero_detections_persist_nothing:
  assumes "files w p = Some content"
    and "yolo_model w p CONFIDENCE_THRESHOLD = Some rs"
    and "\<forall>r\<in>set rs. boxes r = None \<or> boxes r = Some []"
  shows "process_loop w [p] counts s = (counts, snd (process_image w p s)) \<and>
         detections (snd (process_image w p s)) = detections s \<and>
         txn (snd (process_image w p s)) = txn s \<and>
         (hexdigest (md5 w content) \<notin> image_hash ` set (detections s @ txn s) \<longrightarrow>
            \<not> fst (is_image_processed w (hexdigest (md5 w content)) (snd (process_image w p s))) \<and>
            inferred (snd (process_image w p (snd (process_image w p s)))) = inferred s @ [p, p])"
proof -
  let ?h = "hexdigest (md5 w content)"
  let ?s1 = "snd (process_image w p s)"
  have empty: "fst (process_image w p s) = []"
    by (rule process_image_zero [OF assms])
  have loop: "process_loop w [p] counts s = (counts, ?s1)"
    by (simp only: process_loop_nothing [OF empty] process_loop.simps(1))
  have again: "\<not> fst (is_image_processed w ?h ?s1)" and twice: "inferred (snd (process_image w p ?s1)) = inferred s @ [p, p]"
    if new: "?h \<notin> image_hash ` set (detections s @ txn s)"
  proof -
    have first: "\<not> fst (is_image_processed w ?h s)"
      using new by (simp add: is_image_processed_value)
    show second: "\<not> fst (is_image_processed w ?h ?s1)"
      using new by (simp add: is_image_processed_value process_image_frame)
    show "inferred (snd (process_image w p ?s1)) = inferred s @ [p, p]"
      by (simp add: process_image_inferred [OF assms(1) first]
          process_image_inferred [OF assms(1) second])
  qed
  from loop again twice show ?thesis
    by (simp add: process_image_frame)
qed

theorem zero_detections_persist_nothing_witness:
  "files (ex_world [] (\<lambda>_. False)) ex_path = Some [1, 2, 3] \<and>
   yolo_model (ex_world [] (\<lambda>_. False)) ex_path CONFIDENCE_THRESHOLD =
     Some [\<lparr>boxes = Some [], names = [0 \<mapsto> ascii ''box'']\<rparr>] \<and>
   detections (snd (process_image (ex_world [] (\<lambda>_. False)) ex_path ex_state)) = [] \<and>
   inferred (snd (process_image (ex_world [] (\<lambda>_. False)) ex_path
     (snd (process_image (ex_world [] (\<lambda>_. False)) ex_path ex_state)))) = [ex_path, ex_path]"
proof -
  have f: "files (ex_world [] (\<lambda>_. False)) ex_path = Some [1, 2, 3]"
    by (simp add: ex_world_def)
  have y: "yolo_model (ex_world [] (\<lambda>_. False)) ex_path CONFIDENCE_THRESHOLD =
     Some [\<lparr>boxes = Some [], names = [0 \<mapsto> ascii ''box'']\<rparr>]"
    by (simp add: ex_world_def)
  have z: "\<forall>r\<in>set [\<lparr>boxes = Some [], names = [0 \<mapsto> ascii ''box'']\<rparr>]. boxes r = None \<or> boxes r = Some []"
    by simp
  from zero_detections_persist_nothing [OF f y z, of "(0, 0)" ex_state] f y
  show ?thesis
    by (simp add: ex_state_def)
qed

text \<open>
  Claim C1, as stated, fails: in the small corpus with a model that finds nothing, the run
  calls the model on the image, and afterwards the check of its fingerprint still answers
  that the image was not processed.
\<close>

theorem zero_detections_marked_processed_counterexample:
  "yolo_model (ex_world [] (\<lambda>_. False)) ex_path CONFIDENCE_THRESHOLD =
     Some [\<lparr>boxes = Some [], names = [0 \<mapsto> ascii ''box'']\<rparr>] \<and>
   inferred (snd (process_all_images (ex_world [] (\<lambda>_. False)) ex_state)) = [ex_path] \<and>
   \<not> fst (is_image_processed (ex_world [] (\<lambda>_. False))
            (hexdigest (md5 (ex_world [] (\<lambda>_. False)) [1, 2, 3]))
            (snd (process_all_images (ex_world [] (\<lambda>_. False)) ex_state)))"
  by (simp add: eval_defs hexdigest_nonempty)

subsection \<open>C2: the deduplication gate\<close>

text \<open>
  Claim C2, as amended. Deduplication is keyed on the content fingerprint and gated before
  inference, provided the lookup in the store does not raise: for an image whose fingerprint
  has a committed row and whose lookup succeeds, \<open>process_image\<close> logs that it skips the
  image and returns no detections, without calling the model. In particular, when no
  database call raises and the transaction of the connection has not failed, of two files with the same bytes of which the first yields at least
  one detection, the loop persists the rows of the first, calls the model on the first only,
  counts one processed image, and logs the second as skipped.
\<close>

theorem dedup_gate_before_inference:
  "(files w p = Some content \<and>
    hexdigest (md5 w content) \<in> image_hash ` set (detections s) \<and>
    \<not> raises w s \<longrightarrow>
      process_image w p s = ([], say (Info_skipping (name p)) (s\<lparr>tick := Suc (tick s)\<rparr>))) \<and>
   (files w p1 = Some content \<and> files w p2 = Some content \<and>
    fst (process_image w p1 s) \<noteq> [] \<and> (\<forall>n. \<not> db_fault w n) \<and> \<not> aborted s \<longrightarrow>
      detections (snd (process_loop w [p1, p2] counts s)) =
        detections s @ txn s @ fst (process_image w p1 s) \<and>
      inferred (snd (process_loop w [p1, p2] counts s)) = inferred s @ [p1] \<and>
      Info_skipping (name p2) \<in> set (logged (snd (process_loop w [p1, p2] counts s))) \<and>
      fst (process_loop w [p1, p2] counts s) =
        (fst counts + 1, snd counts + length (fst (process_image w p1 s))))"
proof (intro conjI impI)
  assume "files w p = Some content \<and>
    hexdigest (md5 w content) \<in> image_hash ` set (detections s) \<and> \<not> raises w s"
  then show "process_image w p s = ([], say (Info_skipping (name p)) (s\<lparr>tick := Suc (tick s)\<rparr>))"
    by (intro process_image_skip [of w p content]) auto
next
  assume a: "files w p1 = Some content \<and> files w p2 = Some content \<and>
    fst (process_image w p1 s) \<noteq> [] \<and> (\<forall>n. \<not> db_fault w n) \<and> \<not> aborted s"
  let ?ds = "fst (process_image w p1 s)"
  let ?s1 = "snd (process_image w p1 s)"
  let ?s2 = "snd (save_detections w ?ds ?s1)"
  let ?h = "hexdigest (md5 w content)"
  from a have f1: "files w p1 = Some content" and f2: "files w p2 = Some content"
    and ne: "?ds \<noteq> []" and ok: "\<And>n. \<not> db_fault w n" and quiet: "\<not> aborted s"
    by simp_all
  have q1: "\<not> aborted ?s1"
    using process_image_quiet [OF quiet, of w p1] ok by simp
  have saved: "fst (save_detections w ?ds ?s1) = None"
    and rows: "detections ?s2 = detections s @ txn s @ ?ds"
    and q2: "\<not> aborted ?s2"
    using save_detections_ok [OF ne q1, of w] ok by (simp_all add: process_image_frame)
  have first: "\<not> fst (is_image_processed w ?h s)"
  proof
    assume "fst (is_image_processed w ?h s)"
    then have "fst (process_image w p1 s) = []"
      by (simp add: process_image_readable [OF f1] split_beta)
    with ne show False by simp
  qed
  have inf1: "inferred ?s1 = inferred s @ [p1]"
    by (rule process_image_inferred [OF f1 first])
  from ne obtain d where d: "d \<in> set ?ds" by (cases ?ds) auto
  from process_image_fields [OF d] f1 have "image_hash d = ?h" by simp
  with d rows have present: "?h \<in> image_hash ` set (detections ?s2 @ txn ?s2)"
    by force
  have skip: "process_image w p2 ?s2 =
      ([], say (Info_skipping (name p2)) (?s2\<lparr>tick := Suc (tick ?s2)\<rparr>))"
    using q2 ok by (intro process_image_skip [OF f2 present]) (simp add: raises_def)
  have step: "process_loop w [p1, p2] counts s =
      ((fst counts + 1, snd counts + length ?ds), snd (process_image w p2 ?s2))"
    using ne saved skip by (simp add: split_beta)
  show "detections (snd (process_loop w [p1, p2] counts s)) = detections s @ txn s @ ?ds"
    by (simp only: step snd_conv process_image_frame rows)
  show "inferred (snd (process_loop w [p1, p2] counts s)) = inferred s @ [p1]"
    by (simp only: step snd_conv) (simp add: skip say_simps save_detections_inferred inf1)
  show "Info_skipping (name p2) \<in> set (logged (snd (process_loop w [p1, p2] counts s)))"
    by (simp only: step snd_conv) (simp add: skip say_simps)
  show "fst (process_loop w [p1, p2] counts s) = (fst counts + 1, snd counts + length ?ds)"
    by (simp only: step fst_conv)
qed

text \<open>The witness: the image of the small corpus and its renamed copy.\<close>

theorem dedup_gate_before_inference_witness:
  "files (ex_world [ex_box] (\<lambda>_. False)) ex_path = Some [1, 2, 3] \<and>
   files (ex_world [ex_box] (\<lambda>_. False)) ex_copy = Some [1, 2, 3] \<and>
   ex_path \<noteq> ex_copy \<and>
   fst (process_image (ex_world [ex_box] (\<lambda>_. False)) ex_path ex_state) = [ex_row] \<and>
   detections (snd (process_loop (ex_world [ex_box] (\<lambda>_. False)) [ex_path, ex_copy] (0, 0) ex_state))
      = [ex_row] \<and>
   inferred (snd (process_loop (ex_world [ex_box] (\<lambda>_. False)) [ex_path, ex_copy] (0, 0) ex_state))
      = [ex_path] \<and>
   process_image (ex_world [ex_box] (\<lambda>_. False)) ex_copy (ex_state\<lparr>detections := [ex_row]\<rparr>) =
     ([], say (Info_skipping (ascii ''renamed.PNG'')) (ex_state\<lparr>detections := [ex_row], tick := 1\<rparr>))"
proof -
  let ?w = "ex_world [ex_box] (\<lambda>_. False)"
  have f1: "files ?w ex_path = Some [1, 2, 3]" and f2: "files ?w ex_copy = Some [1, 2, 3]"
    by (simp_all add: ex_world_def)
  have ne: "ex_path \<noteq> ex_copy"
    by (simp add: ex_path_def ex_copy_def ascii_def)
  have rows: "fst (process_image ?w ex_path ex_state) = [ex_row]"
    by (simp add: eval_defs hexdigest_nonempty)
  have ok: "\<forall>n. \<not> db_fault ?w n"
    by (simp add: ex_world_def)
  have present: "hexdigest (md5 ?w [1, 2, 3]) \<in> image_hash ` set (detections (ex_state\<lparr>detections := [ex_row]\<rparr>))"
    by (simp add: ex_world_def ex_row_def)
  have t: "tick (ex_state\<lparr>detections := [ex_row]\<rparr>) = 0" "txn ex_state = []" "detections ex_state = []"
    "inferred ex_state = []" "\<not> aborted ex_state"
    "\<not> raises ?w (ex_state\<lparr>detections := [ex_row]\<rparr>)"
    by (simp_all add: ex_state_def raises_def ex_world_def)
  have nm: "name ex_copy = ascii ''renamed.PNG''"
    by (simp add: name_def ex_copy_def IMAGES_DIR_def)
  from dedup_gate_before_inference [of ?w ex_copy "[1, 2, 3]" "ex_state\<lparr>detections := [ex_row]\<rparr>"
      ex_path ex_copy "(0, 0)"] f2 present t(6)
  have gate: "process_image ?w ex_copy (ex_state\<lparr>detections := [ex_row]\<rparr>) =
     ([], say (Info_skipping (ascii ''renamed.PNG'')) (ex_state\<lparr>detections := [ex_row], tick := 1\<rparr>))"
    by (simp add: t nm)
  from dedup_gate_before_inference [of ?w ex_copy "[1, 2, 3]" ex_state ex_path ex_copy "(0, 0)"]
    f1 f2 rows ok
  have two: "detections (snd (process_loop ?w [ex_path, ex_copy] (0, 0) ex_state)) = [ex_row] \<and>
      inferred (snd (process_loop ?w [ex_path, ex_copy] (0, 0) ex_state)) = [ex_path]"
    by (simp add: t)
  from f1 f2 ne rows gate two show ?thesis by simp
qed

text \<open>
  Claim C2, as stated, fails: the fingerprint of the image has a committed row, the lookup
  raises, \<open>is_image_processed\<close> answers \<open>False\<close>, and the model is called on the image.
\<close>

theorem dedup_gate_failed_lookup_counterexample:
  "files (ex_world [ex_box] (\<lambda>n. n = 0)) ex_path = Some [1, 2, 3] \<and>
   hexdigest (md5 (ex_world [ex_box] (\<lambda>n. n = 0)) [1, 2, 3])
     \<in> image_hash ` set (detections (ex_state\<lparr>detections := [ex_row]\<rparr>)) \<and>
   inferred (snd (process_image (ex_world [ex_box] (\<lambda>n. n = 0)) ex_path
     (ex_state\<lparr>detections := [ex_row]\<rparr>))) = [ex_path]"
  by (simp add: eval_defs hexdigest_nonempty)

subsection \<open>C3: running twice\<close>

text \<open>
  Claim C3, as amended. When no database call raises, the first run starts on a connection
  with no open and no failed transaction, and the corpus, the files and the model (one fixed
  function of the image and the threshold) are the same in both runs, the second of two runs over the corpus leaves the committed
  rows exactly as the first run left them; its counters of processed images and of
  detections end at zero; and it calls the model again on exactly the readable images whose
  fingerprint has no committed row. These are images that yield no detection: the model
  finds nothing in them, or its call or the conversion of its answer fails. Every other
  readable image is skipped by the deduplication check.
\<close>

theorem second_run_persists_nothing:
  assumes "\<forall>n. \<not> db_fault w n" and "txn s = []" and "\<not> aborted s"
    and "fst (find_images w s) = Inr images"
  shows "detections (snd (process_all_images w (snd (process_all_images w s)))) =
           detections (snd (process_all_images w s)) \<and>
         inferred (snd (process_all_images w (snd (process_all_images w s)))) =
           inferred (snd (process_all_images w s)) @
           filter (unseen w (detections (snd (process_all_images w s)))) images \<and>
         (\<forall>p\<in>set images. \<forall>content.
            files w p = Some content \<and>
            hexdigest (md5 w content) \<notin> image_hash ` set (detections (snd (process_all_images w s)))
            \<longrightarrow> fst (run_yolo w p (hexdigest (md5 w content)) None None s) = []) \<and>
         (images \<noteq> [] \<longrightarrow>
            last (logged (snd (process_all_images w (snd (process_all_images w s))))) =
              Info_complete 0 (length images) 0)"
proof (cases "images = []")
  case True
  then show ?thesis
    using assms(4) find_images_any_state [of w "snd (process_all_images w s)" s]
    by (simp add: process_all_images_run [where images = "[]"] say_simps find_images_frame)
next
  case False
  let ?s0 = "snd (find_images w s)"
  let ?l1 = "process_loop w images (0, 0) ?s0"
  let ?s1 = "snd (process_all_images w s)"
  let ?t0 = "snd (find_images w ?s1)"
  let ?l2 = "process_loop w images (0, 0) ?t0"
  have again: "fst (find_images w ?s1) = Inr images"
    using assms(4) find_images_any_state [of w ?s1 s] by simp
  have s1: "detections ?s1 = detections (snd ?l1)" "txn ?s1 = txn (snd ?l1)"
    "inferred ?s1 = inferred (snd ?l1)"
    using False by (simp_all add: process_all_images_run [OF assms(4)] say_simps)
  have s1a: "aborted ?s1 = aborted (snd ?l1)"
    using False by (simp add: process_all_images_run [OF assms(4)] say_simps)
  have txn1: "txn ?s1 = []" and quiet1: "\<not> aborted ?s1"
    using process_loop_ok_txn [OF assms(1), of ?s0 images "(0, 0)"] assms(2,3)
    by (simp_all add: s1 s1a find_images_frame)
  have marks: "hexdigest (md5 w content) \<in> image_hash ` set (detections ?s1)"
    if "p \<in> set images" "files w p = Some content"
      "fst (run_yolo w p (hexdigest (md5 w content)) None None s) \<noteq> []" for p content
    using process_loop_marks [OF assms(1) _ _ that, of ?s0 "(0, 0)"] assms(2,3)
    by (simp add: s1 find_images_frame)
  have second: "fst ?l2 = (0, 0) \<and> detections (snd ?l2) = detections ?s1 \<and>
      inferred (snd ?l2) = inferred ?t0 @ filter (unseen w (detections ?s1)) images"
    by (rule process_loop_settled [OF assms(1) marks])
      (simp_all add: find_images_frame txn1 quiet1)
  have no_rows: "\<forall>p\<in>set images. \<forall>content.
      files w p = Some content \<and> hexdigest (md5 w content) \<notin> image_hash ` set (detections ?s1)
      \<longrightarrow> fst (run_yolo w p (hexdigest (md5 w content)) None None s) = []"
    using marks by blast
  have run2: "detections (snd (process_all_images w ?s1)) = detections ?s1"
    "inferred (snd (process_all_images w ?s1)) =
       inferred ?s1 @ filter (unseen w (detections ?s1)) images"
    "last (logged (snd (process_all_images w ?s1))) = Info_complete 0 (length images) 0"
    using second False
    by (simp_all add: process_all_images_run [OF again] say_simps find_images_frame)
  from run2 no_rows show ?thesis by blast
qed

text \<open>The witness: the small corpus, whose image yields one detection. The second run
  keeps the one row and calls the model on nothing.\<close>

theorem second_run_persists_nothing_witness:
  "(\<forall>n. \<not> db_fault (ex_world [ex_box] (\<lambda>_. False)) n) \<and> txn ex_state = [] \<and>
   \<not> aborted ex_state \<and>
   fst (find_images (ex_world [ex_box] (\<lambda>_. False)) ex_state) = Inr [ex_path] \<and>
   detections (snd (process_all_images (ex_world [ex_box] (\<lambda>_. False)) ex_state)) = [ex_row] \<and>
   detections (snd (process_all_images (ex_world [ex_box] (\<lambda>_. False))
     (snd (process_all_images (ex_world [ex_box] (\<lambda>_. False)) ex_state)))) = [ex_row] \<and>
   inferred (snd (process_all_images (ex_world [ex_box] (\<lambda>_. False))
     (snd (process_all_images (ex_world [ex_box] (\<lambda>_. False)) ex_state)))) = [ex_path]"
proof -
  let ?w = "ex_world [ex_box] (\<lambda>_. False)"
  have ok: "\<forall>n. \<not> db_fault ?w n"
    by (simp add: ex_world_def)
  have txn: "txn ex_state = []" and quiet: "\<not> aborted ex_state"
    by (simp_all add: ex_state_def)
  have found: "fst (find_images ?w ex_state) = Inr [ex_path]"
    by (simp add: eval_defs)
  have first: "detections (snd (process_all_images ?w ex_state)) = [ex_row]"
    "inferred (snd (process_all_images ?w ex_state)) = [ex_path]"
    by (simp_all add: eval_defs hexdigest_nonempty)
  have seen: "\<not> unseen ?w [ex_row] ex_path"
    by (simp add: unseen_def ex_world_def ex_row_def)
  from second_run_persists_nothing [OF ok txn quiet found] first seen
  have "detections (snd (process_all_images ?w (snd (process_all_images ?w ex_state)))) = [ex_row] \<and>
    inferred (snd (process_all_images ?w (snd (process_all_images ?w ex_state)))) = [ex_path]"
    by simp
  with ok txn quiet found first show ?thesis by blast
qed

text \<open>
  Claim C3, as stated, fails: with a model that finds nothing, the image of the small corpus
  is readable, and the second run calls the model on it again instead of skipping it.
\<close>

theorem second_run_skips_all_counterexample:
  "files (ex_world [] (\<lambda>_. False)) ex_path = Some [1, 2, 3] \<and>
   fst (find_images (ex_world [] (\<lambda>_. False)) ex_state) = Inr [ex_path] \<and>
   inferred (snd (process_all_images (ex_world [] (\<lambda>_. False)) ex_state)) = [ex_path] \<and>
   inferred (snd (process_all_images (ex_world [] (\<lambda>_. False))
     (snd (process_all_images (ex_world [] (\<lambda>_. False)) ex_state)))) = [ex_path, ex_path] \<and>
   Info_skipping (name ex_path) \<notin> set (logged (snd (process_all_images (ex_world [] (\<lambda>_. False))
     (snd (process_all_images (ex_world [] (\<lambda>_. False)) ex_state)))))"
  by (simp add: eval_defs hexdigest_nonempty)

subsection \<open>C4: a failed save\<close>

text \<open>
  The part of claim C4 that the code keeps. When one of the \<open>INSERT\<close> statements or the
  \<open>commit\<close> raises, the rows inserted so far are rolled back and the committed rows are as
  before, the failure is logged, a fingerprint that was not committed before is still not
  reported as processed, and an image with such a fingerprint is handed to the model again
  when it is processed later. This holds whether or not the \<open>rollback\<close> itself raises.
\<close>

lemma failed_save_rolls_back:
  "ds \<noteq> [] \<and> (aborted s \<or> (\<exists>k\<le>length ds. db_fault w (tick s + k))) \<longrightarrow>
     detections (snd (save_detections w ds s)) = detections s \<and>
     txn (snd (save_detections w ds s)) = [] \<and>
     Error_save \<in> set (logged (snd (save_detections w ds s))) \<and>
     (\<forall>h. h \<notin> image_hash ` set (detections s) \<longrightarrow>
        \<not> fst (is_image_processed w h (snd (save_detections w ds s)))) \<and>
     (\<forall>p content. files w p = Some content \<and>
        hexdigest (md5 w content) \<notin> image_hash ` set (detections s) \<longrightarrow>
        inferred (snd (process_image w p (snd (save_detections w ds s)))) =
          inferred (snd (save_detections w ds s)) @ [p])"
proof (intro impI)
  assume a: "ds \<noteq> [] \<and> (aborted s \<or> (\<exists>k\<le>length ds. db_fault w (tick s + k)))"
  let ?s' = "snd (save_detections w ds s)"
  from a have ne: "ds \<noteq> []" and bad: "aborted s \<or> (\<exists>k\<le>length ds. db_fault w (tick s + k))"
    by simp_all
  have same: "detections ?s' = detections s"
    by (rule save_detections_failed(1) [OF ne bad])
  have none: "txn ?s' = []"
    by (rule save_detections_txn [OF ne])
  have err: "Error_save \<in> set (logged ?s')"
    by (rule save_detections_failed(2) [OF ne bad])
  have unmarked: "\<not> fst (is_image_processed w h ?s')" if "h \<notin> image_hash ` set (detections s)" for h
    using that by (simp add: is_image_processed_value same none)
  have retry: "inferred (snd (process_image w p ?s')) = inferred ?s' @ [p]"
    if "files w p = Some content \<and> hexdigest (md5 w content) \<notin> image_hash ` set (detections s)"
    for p content
    using that unmarked [of "hexdigest (md5 w content)"]
    by (intro process_image_inferred [of w p content]) simp_all
  from same none err unmarked retry
  show "detections ?s' = detections s \<and> txn ?s' = [] \<and> Error_save \<in> set (logged ?s') \<and>
     (\<forall>h. h \<notin> image_hash ` set (detections s) \<longrightarrow> \<not> fst (is_image_processed w h ?s')) \<and>
     (\<forall>p content. files w p = Some content \<and>
        hexdigest (md5 w content) \<notin> image_hash ` set (detections s) \<longrightarrow>
        inferred (snd (process_image w p ?s')) = inferred ?s' @ [p])"
    by blast
qed

text \<open>
  Claim C4 says that an image whose save failed is reported as failed for the run. The code
  at that input: the image of the small corpus yields one detection, its \<open>INSERT\<close> raises
  and the \<open>rollback\<close> returns. \<open>save_detections\<close> has caught the exception and returns
  normally, so the loop counts the image as processed and its detection in the total: the
  run ends with the summary of one processed image out of one and one detection, while no
  row is committed. When the \<open>rollback\<close> raises too, the exception reaches the loop, which
  logs the image as failed and counts nothing.
\<close>

theorem failed_save_counted_as_processed:
  "fst (find_images (ex_world [ex_box] (\<lambda>n. n = 2)) ex_state) = Inr [ex_path] \<and>
   fst (process_image (ex_world [ex_box] (\<lambda>n. n = 2)) ex_path ex_state) = [ex_row] \<and>
   save_detections (ex_world [ex_box] (\<lambda>n. n = 2)) [ex_row]
       (snd (process_image (ex_world [ex_box] (\<lambda>n. n = 2)) ex_path ex_state)) =
     (None, ex_state\<lparr>tick := 4, inferred := [ex_path],
        logged := [Info_found 1 (ascii ''1001.jpg''), Error_save]\<rparr>) \<and>
   process_all_images (ex_world [ex_box] (\<lambda>n. n = 2)) ex_state =
     (None, ex_state\<lparr>tick := 4, inferred := [ex_path],
        logged := [Info_found_images 1, Info_found 1 (ascii ''1001.jpg''), Error_save,
                   Info_complete 1 1 1]\<rparr>) \<and>
   detections (snd (process_all_images (ex_world [ex_box] (\<lambda>n. n = 2)) ex_state)) = [] \<and>
   process_all_images (ex_world [ex_box] (\<lambda>n. n = 2 \<or> n = 3)) ex_state =
     (None, ex_state\<lparr>tick := 4, inferred := [ex_path], aborted := True,
        logged := [Info_found_images 1, Info_found 1 (ascii ''1001.jpg''), Error_save,
                   Error_processing ex_path, Info_complete 0 1 0]\<rparr>)"
  by (simp add: eval_defs hexdigest_nonempty)

subsection \<open>C5: correlated rows\<close>

text \<open>
  Claim C5. Every detection that \<open>process_image\<close> returns is correlated with the message
  store as it is at that moment: a message identifier comes with a channel name, and the
  message store has a message with that identifier under that channel. The run never
  changes the message store, so when the rows of the store are correlated before a run, all
  committed rows are correlated after it, whichever database calls raise.
\<close>

theorem persisted_rows_correlated:
  "(\<forall>d\<in>set (fst (process_image w p s)). correlated (messages s) d) \<and>
   ((\<forall>d\<in>set (detections s @ txn s). correlated (messages s) d) \<longrightarrow>
      (\<forall>d\<in>set (detections (snd (process_all_images w s))). correlated (messages s) d))"
proof (intro conjI impI)
  show "\<forall>d\<in>set (fst (process_image w p s)). correlated (messages s) d"
    using process_image_correlated by blast
next
  assume inv: "\<forall>d\<in>set (detections s @ txn s). correlated (messages s) d"
  show "\<forall>d\<in>set (detections (snd (process_all_images w s))). correlated (messages s) d"
  proof (rule process_all_images_rows [where M = "messages s", OF _ inv])
    fix p t d
    assume "messages t = messages s" and "d \<in> set (fst (process_image w p t))"
    with process_image_correlated [of d w p t] show "correlated (messages s) d" by simp
  qed simp
qed

text \<open>The witness: the scenario of the specification, whose one row carries the message
  1001 of the channel \<open>tikvahpharma\<close>.\<close>

theorem persisted_rows_correlated_witness:
  "detections ex_state @ txn ex_state = [] \<and>
   detections (snd (process_all_images (ex_world [ex_box] (\<lambda>_. False)) ex_state)) = [ex_row] \<and>
   message_id ex_row = Some 1001 \<and> channel_name ex_row = Some (ascii ''tikvahpharma'') \<and>
   (1001, ascii ''tikvahpharma'') \<in> set (messages ex_state) \<and>
   correlated (messages ex_state) ex_row"
proof -
  let ?w = "ex_world [ex_box] (\<lambda>_. False)"
  have inv: "\<forall>d\<in>set (detections ex_state @ txn ex_state). correlated (messages ex_state) d"
    by (simp add: ex_state_def)
  have run: "detections (snd (process_all_images ?w ex_state)) = [ex_row]"
    by (simp add: eval_defs hexdigest_nonempty)
  from persisted_rows_correlated [of ?w ex_path ex_state] inv run
  have "correlated (messages ex_state) ex_row"
    by simp
  with run show ?thesis
    by (simp add: ex_row_def ex_state_def)
qed

subsection \<open>C6: the correlator and its reference algorithm\<close>

text \<open>
  Claim C6, as amended. The correlator returns what the reference algorithm returns whenever
  the query on the message store does not raise and the base name is within the limit of
  the interpreter on integer conversion (as every real file name is): no channel and no
  identifier when no path component is a known channel; otherwise the first such component
  as channel, with the first run of digits of the base name as identifier if the message
  store has it under that channel, and no identifier if not. A digit is a decimal digit of
  any script, as for \<open>\d\<close> and \<open>int()\<close>. The conversion and the query happen only when a
  channel and a candidate were found; when either raises, the correlator returns neither
  channel nor identifier.
\<close>

theorem correlator_refines_reference:
  "(\<not> raises w s \<and> (max_str_digits w = 0 \<or> length (stem p) \<le> max_str_digits w) \<longrightarrow>
      fst (get_message_id_for_image w p s) = spec_correlate w known_channels (messages s) p) \<and>
   fst (get_message_id_for_image w p s) =
     (case (find_channel p, re_search_digits w (stem p)) of
        (Some channel, Some ds) \<Rightarrow>
          if (0 < max_str_digits w \<and> max_str_digits w < length ds) \<or> raises w s
          then (None, None)
          else spec_correlate w known_channels (messages s) p
      | _ \<Rightarrow> spec_correlate w known_channels (messages s) p)"
proof (intro conjI impI)
  assume a: "\<not> raises w s \<and> (max_str_digits w = 0 \<or> length (stem p) \<le> max_str_digits w)"
  show "fst (get_message_id_for_image w p s) = spec_correlate w known_channels (messages s) p"
  proof (cases "re_search_digits w (stem p)")
    case None
    then show ?thesis
      by (simp add: get_message_id_refines split: option.splits)
  next
    case (Some ds)
    from re_search_digits_run [OF Some] a
    have "\<not> (0 < max_str_digits w \<and> max_str_digits w < length ds)"
      by auto
    with a Some show ?thesis
      by (auto simp add: get_message_id_refines split: option.splits)
  qed
next
  show "fst (get_message_id_for_image w p s) =
     (case (find_channel p, re_search_digits w (stem p)) of
        (Some channel, Some ds) \<Rightarrow>
          if (0 < max_str_digits w \<and> max_str_digits w < length ds) \<or> raises w s
          then (None, None)
          else spec_correlate w known_channels (messages s) p
      | _ \<Rightarrow> spec_correlate w known_channels (messages s) p)"
    by (rule get_message_id_refines)
qed

text \<open>The witness: a verified identifier, a name in Arabic-Indic digits whose number the
  message store has, a candidate that the message store lacks, and a path outside the known
  channels.\<close>

theorem correlator_refines_reference_witness:
  "\<not> raises (ex_world [] (\<lambda>_. False)) ex_state \<and>
   length (stem ex_arabic) \<le> max_str_digits (ex_world [] (\<lambda>_. False)) \<and>
   spec_correlate (ex_world [] (\<lambda>_. False)) known_channels (messages ex_state) ex_path =
     (Some 1001, Some (ascii ''tikvahpharma'')) \<and>
   stem ex_arabic = [1633, 1634, 1635] \<and>
   fst (get_message_id_for_image (ex_world [] (\<lambda>_. False)) ex_arabic ex_state) =
     (Some 123, Some (ascii ''tikvahpharma'')) \<and>
   spec_correlate (ex_world [] (\<lambda>_. False)) known_channels (messages ex_state) ex_arabic =
     (Some 123, Some (ascii ''tikvahpharma'')) \<and>
   spec_correlate (ex_world [] (\<lambda>_. False)) known_channels (messages ex_state)
       (IMAGES_DIR @ [ascii ''tikvahpharma'', ascii ''photo_7_2024.jpg'']) =
     (None, Some (ascii ''tikvahpharma'')) \<and>
   spec_correlate (ex_world [] (\<lambda>_. False)) known_channels (messages ex_state)
       (IMAGES_DIR @ [ascii ''elsewhere'', ascii ''photo.jpg'']) = (None, None)"
proof -
  let ?w = "ex_world [] (\<lambda>_. False)"
  let ?p2 = "IMAGES_DIR @ [ascii ''tikvahpharma'', ascii ''photo_7_2024.jpg'']"
  let ?p3 = "IMAGES_DIR @ [ascii ''elsewhere'', ascii ''photo.jpg'']"
  have ok: "\<not> raises ?w ex_state"
    by (simp add: raises_def ex_world_def ex_state_def)
  have lim: "max_str_digits ?w = 4300"
    by (simp add: ex_world_def)
  have stems: "stem ex_path = ascii ''1001''" "stem ex_arabic = [1633, 1634, 1635]"
    "stem ?p2 = ascii ''photo_7_2024''" "stem ?p3 = ascii ''photo''"
    by (simp_all add: stem_def name_def ex_path_def ex_arabic_def IMAGES_DIR_def ascii_def)
  have c1: "fst (get_message_id_for_image ?w ex_path ex_state) = (Some 1001, Some (ascii ''tikvahpharma''))"
    by (simp add: eval_defs)
  have c4: "fst (get_message_id_for_image ?w ex_arabic ex_state) = (Some 123, Some (ascii ''tikvahpharma''))"
    by (simp add: eval_defs)
  have c2: "fst (get_message_id_for_image ?w ?p2 ex_state) = (None, Some (ascii ''tikvahpharma''))"
    by (simp add: eval_defs)
  have c3: "fst (get_message_id_for_image ?w ?p3 ex_state) = (None, None)"
    by (simp add: eval_defs)
  from correlator_refines_reference [where w = ?w and s = ex_state and p = ex_path] ok c1
  have one: "spec_correlate ?w known_channels (messages ex_state) ex_path =
      (Some 1001, Some (ascii ''tikvahpharma''))"
    by (simp add: lim stems length_ascii)
  from correlator_refines_reference [where w = ?w and s = ex_state and p = ex_arabic] ok c4
  have four: "spec_correlate ?w known_channels (messages ex_state) ex_arabic =
      (Some 123, Some (ascii ''tikvahpharma''))"
    by (simp add: lim stems)
  from correlator_refines_reference [where w = ?w and s = ex_state and p = ?p2] ok c2
  have two: "spec_correlate ?w known_channels (messages ex_state) ?p2 =
      (None, Some (ascii ''tikvahpharma''))"
    by (simp add: lim stems length_ascii)
  from correlator_refines_reference [where w = ?w and s = ex_state and p = ?p3] ok c3
  have three: "spec_correlate ?w known_channels (messages ex_state) ?p3 = (None, None)"
    by (simp add: lim stems length_ascii)
  have len: "length (stem ex_arabic) \<le> max_str_digits ?w"
    by (simp add: lim stems)
  from ok len one stems(2) c4 four two three show ?thesis by blast
qed

text \<open>
  Claim C6, as stated, fails: the path names a known channel, its base name starts with a
  run of digits, the message store has that identifier under that channel, but the query
  raises and the correlator drops the channel with the identifier.
\<close>

theorem correlator_failed_query_counterexample:
  "raises (ex_world [] (\<lambda>n. n = 0)) ex_state \<and>
   fst (get_message_id_for_image (ex_world [] (\<lambda>n. n = 0)) ex_path ex_state) = (None, None) \<and>
   find_channel ex_path = Some (ascii ''tikvahpharma'') \<and>
   re_search_digits (ex_world [] (\<lambda>n. n = 0)) (stem ex_path) = Some (ascii ''1001'') \<and>
   (1001, ascii ''tikvahpharma'') \<in> set (messages ex_state) \<and>
   spec_correlate (ex_world [] (\<lambda>n. n = 0)) known_channels (messages ex_state) ex_path =
     (Some 1001, Some (ascii ''tikvahpharma'')) \<and>
   fst (get_message_id_for_image (ex_world [] (\<lambda>n. n = 0)) ex_path ex_state) \<noteq>
     spec_correlate (ex_world [] (\<lambda>n. n = 0)) known_channels (messages ex_state) ex_path"
  by (simp add: eval_defs raises_def spec_correlate_def spec_first_digit_run_def
      spec_number_Cons spec_number_Nil)

subsection \<open>C7: an unreadable image\<close>

text \<open>
  Claim C7, as amended. An image file that cannot be opened or read fails at the hashing
  step: the failure is logged with the path of the image, \<open>get_image_hash\<close> hands back the
  empty string, and \<open>process_image\<close> stops there with no detections, before the store is
  asked and before the model is called, so the image is never treated as a new image.
  Wherever the image stands in the corpus, the loop goes on with the next image with its
  counters and the whole state as they were, the log entry apart. The failure is not
  counted: the run keeps no count of failures.
\<close>

theorem unreadable_image_skipped:
  "files w p = None \<longrightarrow>
     get_image_hash w p s = ([], say (Error_hash p) s) \<and>
     process_image w p s = ([], say (Error_hash p) s) \<and>
     process_loop w (before @ p # after) counts s =
       process_loop w after (fst (process_loop w before counts s))
         (say (Error_hash p) (snd (process_loop w before counts s)))"
proof (intro impI conjI)
  assume f: "files w p = None"
  show "get_image_hash w p s = ([], say (Error_hash p) s)"
    using f by (simp add: get_image_hash_def)
  show "process_image w p s = ([], say (Error_hash p) s)"
    by (rule process_image_unreadable [OF f])
  have "fst (process_image w p t) = []" and "snd (process_image w p t) = say (Error_hash p) t" for t
    by (simp_all add: process_image_unreadable [OF f])
  then have "process_loop w (p # after) c t = process_loop w after c (say (Error_hash p) t)" for c t
    using process_loop_nothing [of w p t after c] by simp
  then show "process_loop w (before @ p # after) counts s =
       process_loop w after (fst (process_loop w before counts s))
         (say (Error_hash p) (snd (process_loop w before counts s)))"
    by (simp only: process_loop_append)
qed

text \<open>The witness: an unreadable file between the image of the small corpus and its
  copy. The first image is stored, the unreadable one leaves its log entry, the copy is
  skipped.\<close>

theorem unreadable_image_skipped_witness:
  "files (ex_world [ex_box] (\<lambda>_. False)) ex_gone = None \<and>
   fst (find_images ((ex_world [ex_box] (\<lambda>_. False))
      \<lparr>corpus := Root_tree [(ex_path, Regular_file), (ex_gone, Regular_file), (ex_copy, Regular_file)]\<rparr>)
      ex_state) = Inr [ex_path, ex_gone, ex_copy] \<and>
   process_loop (ex_world [ex_box] (\<lambda>_. False)) [ex_path, ex_gone, ex_copy] (0, 0) ex_state =
     ((1, 1),
      ex_state\<lparr>detections := [ex_row], tick := 5, inferred := [ex_path],
        logged := [Info_found 1 (ascii ''1001.jpg''), Info_saved 1, Error_hash ex_gone,
                   Info_skipping (ascii ''renamed.PNG'')]\<rparr>)"
proof -
  let ?w = "ex_world [ex_box] (\<lambda>_. False)"
  have f: "files ?w ex_gone = None"
    by (simp add: ex_world_def ex_gone_def ex_path_def ex_copy_def ascii_def)
  have found: "fst (find_images (?w\<lparr>corpus := Root_tree [(ex_path, Regular_file),
      (ex_gone, Regular_file), (ex_copy, Regular_file)]\<rparr>) ex_state) = Inr [ex_path, ex_gone, ex_copy]"
    by (simp add: eval_defs)
  have before: "process_loop ?w [ex_path] (0, 0) ex_state =
      ((1, 1), ex_state\<lparr>detections := [ex_row], tick := 4, inferred := [ex_path],
        logged := [Info_found 1 (ascii ''1001.jpg''), Info_saved 1]\<rparr>)"
    by (simp add: eval_defs hexdigest_nonempty)
  have after: "process_loop ?w [ex_copy] (1, 1)
      (say (Error_hash ex_gone) (ex_state\<lparr>detections := [ex_row], tick := 4, inferred := [ex_path],
        logged := [Info_found 1 (ascii ''1001.jpg''), Info_saved 1]\<rparr>)) =
      ((1, 1), ex_state\<lparr>detections := [ex_row], tick := 5, inferred := [ex_path],
        logged := [Info_found 1 (ascii ''1001.jpg''), Info_saved 1, Error_hash ex_gone,
                   Info_skipping (ascii ''renamed.PNG'')]\<rparr>)"
    by (simp add: eval_defs hexdigest_nonempty)
  from unreadable_image_skipped [of ?w ex_gone ex_state "[ex_path]" "[ex_copy]" "(0, 0)"] f
  have "process_loop ?w [ex_path, ex_gone, ex_copy] (0, 0) ex_state =
      process_loop ?w [ex_copy] (fst (process_loop ?w [ex_path] (0, 0) ex_state))
        (say (Error_hash ex_gone) (snd (process_loop ?w [ex_path] (0, 0) ex_state)))"
    by simp
  with before after f found show ?thesis by simp
qed

text \<open>
  Claim C7, as stated, fails where it has the image counted as a failure: the summary of a
  run over one unreadable image counts no processed image, one image found and no
  detection, and the summaries of a run over one image without detections and of a run
  over one image already stored are the same.
\<close>

theorem unreadable_image_counted_counterexample:
  "files (ex_world [ex_box] (\<lambda>_. False)) ex_gone = None \<and>
   process_all_images ((ex_world [ex_box] (\<lambda>_. False))\<lparr>corpus := Root_tree [(ex_gone, Regular_file)]\<rparr>)
       ex_state =
     (None, ex_state\<lparr>logged := [Info_found_images 1, Error_hash ex_gone, Info_complete 0 1 0]\<rparr>) \<and>
   last (logged (snd (process_all_images (ex_world [] (\<lambda>_. False)) ex_state))) =
     Info_complete 0 1 0 \<and>
   last (logged (snd (process_all_images (ex_world [ex_box] (\<lambda>_. False))
       (ex_state\<lparr>detections := [ex_row]\<rparr>)))) = Info_complete 0 1 0"
  by (simp add: eval_defs hexdigest_nonempty)

subsection \<open>C8: what ends a run\<close>

text \<open>
  Claim C8, as amended. The run is one call of \<open>process_all_images\<close>. No error while an
  image is processed ends it: each image found reaches its own end (hash failure, skip,
  count of detections, or processing failure) whatever went wrong for the images before
  it, for every schedule of failing database calls and every answer of the model. A corpus
  root that does not exist does not fail the run: it is reported by a warning at once and
  the run returns normally with no image processed; a root that cannot be listed is an empty
  corpus. An exception leaves the run exactly when examining the root or one of the entries
  under it raises, while the images are being found, and then the state is untouched:
  nothing was processed.
\<close>

theorem image_errors_never_end_run:
  "((fst (process_all_images w s) \<noteq> None) =
      (corpus w = Root_raises \<or>
       (\<exists>entries. corpus w = Root_tree entries \<and> (\<exists>p. (p, Raises) \<in> set entries)))) \<and>
   (fst (process_all_images w s) \<noteq> None \<longrightarrow> process_all_images w s = (Some OSError, s)) \<and>
   (corpus w = Root_missing \<longrightarrow>
      process_all_images w s = (None, say Info_no_images (say Warning_no_directory s))) \<and>
   (corpus w = Root_tree [] \<longrightarrow>
      process_all_images w s = (None, say Info_no_images (say (Info_found_images 0) s))) \<and>
   (\<forall>images. fst (find_images w s) = Inr images \<longrightarrow>
      fst (process_all_images w s) = None \<and>
      outcomes (snd (process_all_images w s)) = outcomes s + length images) \<and>
   outcomes (snd (process_loop w ps counts s)) = outcomes s + length ps"
proof (intro conjI impI allI)
  have run: "fst (process_all_images w s) = None" if "fst (find_images w s) = Inr images" for images
    by (simp add: process_all_images_run [OF that])
  have raised: "process_all_images w s = (Some OSError, s)" if "fst (find_images w s) = Inl e" for e
    using find_images_raised [OF that] by (simp add: process_all_images_def)
  have "(fst (process_all_images w s) \<noteq> None) = (\<exists>e. fst (find_images w s) = Inl e)"
    using run raised by (cases "fst (find_images w s)") auto
  then show "(fst (process_all_images w s) \<noteq> None) =
      (corpus w = Root_raises \<or>
       (\<exists>entries. corpus w = Root_tree entries \<and> (\<exists>p. (p, Raises) \<in> set entries)))"
    by (simp only: find_images_raises)
  show "process_all_images w s = (Some OSError, s)" if "fst (process_all_images w s) \<noteq> None"
    using that run raised by (cases "fst (find_images w s)") auto
  show "process_all_images w s = (None, say Info_no_images (say Warning_no_directory s))"
    if "corpus w = Root_missing"
    using that by (simp add: process_all_images_def find_images_def)
  show "process_all_images w s = (None, say Info_no_images (say (Info_found_images 0) s))"
    if "corpus w = Root_tree []"
    using that by (simp add: process_all_images_def find_images_def)
  show "fst (process_all_images w s) = None" if "fst (find_images w s) = Inr images" for images
    by (rule run [OF that])
  show "outcomes (snd (process_all_images w s)) = outcomes s + length images"
    if "fst (find_images w s) = Inr images" for images
    using process_loop_outcomes [of w images "(0, 0)" "snd (find_images w s)"]
      find_images_outcomes [of w s]
    by (simp add: process_all_images_run [OF that] outcomes_def say_def)
  show "outcomes (snd (process_loop w ps counts s)) = outcomes s + length ps"
    by (rule process_loop_outcomes)
qed

text \<open>The witness: a root whose examination raises, an entry whose examination raises,
  and a corpus of three images with a database whose every call raises. The first file
  cannot be read, every lookup, insert and rollback raises, and still the run returns
  normally after calling the model on both readable images.\<close>

theorem image_errors_never_end_run_witness:
  "process_all_images ((ex_world [ex_box] (\<lambda>_. True))\<lparr>corpus := Root_raises\<rparr>) ex_state =
     (Some OSError, ex_state) \<and>
   process_all_images ((ex_world [ex_box] (\<lambda>_. True))
      \<lparr>corpus := Root_tree [(ex_path, Regular_file), (ex_copy, Raises)]\<rparr>) ex_state =
     (Some OSError, ex_state) \<and>
   fst (find_images ((ex_world [ex_box] (\<lambda>_. True))
      \<lparr>corpus := Root_tree [(ex_gone, Regular_file), (IMAGES_DIR, Not_a_file),
          (ex_path, Regular_file), (ex_copy, Regular_file)]\<rparr>) ex_state) =
     Inr [ex_gone, ex_path, ex_copy] \<and>
   fst (process_all_images ((ex_world [ex_box] (\<lambda>_. True))
      \<lparr>corpus := Root_tree [(ex_gone, Regular_file), (IMAGES_DIR, Not_a_file),
          (ex_path, Regular_file), (ex_copy, Regular_file)]\<rparr>) ex_state) = None \<and>
   outcomes (snd (process_all_images ((ex_world [ex_box] (\<lambda>_. True))
      \<lparr>corpus := Root_tree [(ex_gone, Regular_file), (IMAGES_DIR, Not_a_file),
          (ex_path, Regular_file), (ex_copy, Regular_file)]\<rparr>) ex_state)) = 3 \<and>
   inferred (snd (process_all_images ((ex_world [ex_box] (\<lambda>_. True))
      \<lparr>corpus := Root_tree [(ex_gone, Regular_file), (IMAGES_DIR, Not_a_file),
          (ex_path, Regular_file), (ex_copy, Regular_file)]\<rparr>) ex_state)) =
     [ex_path, ex_copy]"
proof -
  let ?w = "ex_world [ex_box] (\<lambda>_. True)"
  let ?bad = "?w\<lparr>corpus := Root_tree [(ex_path, Regular_file), (ex_copy, Raises)]\<rparr>"
  let ?tree = "?w\<lparr>corpus := Root_tree [(ex_gone, Regular_file), (IMAGES_DIR, Not_a_file),
          (ex_path, Regular_file), (ex_copy, Regular_file)]\<rparr>"
  have root: "corpus (?w\<lparr>corpus := Root_raises\<rparr>) = Root_raises"
    by simp
  have entry: "\<exists>entries. corpus ?bad = Root_tree entries \<and> (\<exists>p. (p, Raises) \<in> set entries)"
    by auto
  have found: "fst (find_images ?tree ex_state) = Inr [ex_gone, ex_path, ex_copy]"
    by (simp add: eval_defs)
  have start: "outcomes ex_state = 0"
    by (simp add: outcomes_def ex_state_def)
  have calls: "inferred (snd (process_all_images ?tree ex_state)) = [ex_path, ex_copy]"
    by (simp add: eval_defs hexdigest_nonempty)
  from image_errors_never_end_run [of "?w\<lparr>corpus := Root_raises\<rparr>" ex_state "[]" "(0, 0)"] root
  have one: "process_all_images (?w\<lparr>corpus := Root_raises\<rparr>) ex_state = (Some OSError, ex_state)"
    by simp
  from image_errors_never_end_run [of ?bad ex_state "[]" "(0, 0)"] entry
  have two: "process_all_images ?bad ex_state = (Some OSError, ex_state)"
    by blast
  from image_errors_never_end_run [of ?tree ex_state "[]" "(0, 0)"] found start
  have three: "fst (process_all_images ?tree ex_state) = None \<and>
      outcomes (snd (process_all_images ?tree ex_state)) = 3"
    by simp
  from one two found three calls show ?thesis by blast
qed

text \<open>
  Claim C8, as stated, fails for the two causes it names: with a corpus root that does not
  exist, and with one that yields no entry, the run does not fail but returns normally.
\<close>

theorem missing_root_fails_run_counterexample:
  "corpus ((ex_world [ex_box] (\<lambda>_. False))\<lparr>corpus := Root_missing\<rparr>) = Root_missing \<and>
   process_all_images ((ex_world [ex_box] (\<lambda>_. False))\<lparr>corpus := Root_missing\<rparr>) ex_state =
     (None, ex_state\<lparr>logged := [Warning_no_directory, Info_no_images]\<rparr>) \<and>
   process_all_images ((ex_world [ex_box] (\<lambda>_. False))\<lparr>corpus := Root_tree []\<rparr>) ex_state =
     (None, ex_state\<lparr>logged := [Info_found_images 0, Info_no_images]\<rparr>)"
  by (simp add: process_all_images_def find_images_def say_def ex_state_def)

subsection \<open>C9: the confidence floor\<close>

text \<open>
  Claim C9. The threshold of the run is 0.3 and is handed to the model with the call; the
  pipeline itself filters nothing: the confidences of the detections of an image are, in
  order, the confidences of the boxes the model returned. So, when the model returns only
  boxes whose confidence reaches the threshold it is called with, and the rows of the store
  reach the threshold before a run, every committed row reaches it after the run.
\<close>

theorem persisted_rows_reach_threshold:
  "CONFIDENCE_THRESHOLD = 3 / 10 \<and>
   (\<forall>rs ds. yolo_model w p CONFIDENCE_THRESHOLD = Some rs \<and> fst (process_image w p s) = ds \<and>
      ds \<noteq> [] \<longrightarrow>
        map confidence_score ds =
          concat (map (\<lambda>r. case boxes r of None \<Rightarrow> [] | Some bs \<Rightarrow> map conf bs) rs)) \<and>
   ((\<forall>q c rs. yolo_model w q c = Some rs \<longrightarrow>
       (\<forall>r\<in>set rs. \<forall>bs. boxes r = Some bs \<longrightarrow> (\<forall>b\<in>set bs. c \<le> conf b))) \<and>
    (\<forall>d\<in>set (detections s @ txn s). CONFIDENCE_THRESHOLD \<le> confidence_score d) \<longrightarrow>
      (\<forall>d\<in>set (detections (snd (process_all_images w s))).
         CONFIDENCE_THRESHOLD \<le> confidence_score d))"
proof (intro conjI impI allI)
  show "CONFIDENCE_THRESHOLD = 3 / 10"
    by (simp add: CONFIDENCE_THRESHOLD_def)
next
  fix rs ds
  assume a: "yolo_model w p CONFIDENCE_THRESHOLD = Some rs \<and> fst (process_image w p s) = ds \<and> ds \<noteq> []"
  show "map confidence_score ds =
          concat (map (\<lambda>r. case boxes r of None \<Rightarrow> [] | Some bs \<Rightarrow> map conf bs) rs)"
  proof (cases "files w p")
    case None
    with a show ?thesis by (auto simp add: process_image_unreadable)
  next
    case (Some content)
    let ?h = "hexdigest (md5 w content)"
    let ?s2 = "snd (is_image_processed w ?h s)"
    let ?mc = "fst (get_message_id_for_image w p ?s2)"
    from a have "fst (run_yolo w p ?h (fst ?mc) (snd ?mc) (snd (get_message_id_for_image w p ?s2))) = ds"
      by (auto simp add: process_image_readable [OF Some] split_beta split: bool.splits if_splits)
    with a have "result_rows p ?h (fst ?mc) (snd ?mc) rs = Some ds"
      by (auto simp add: run_yolo_rows split: option.splits)
    then show ?thesis by (rule result_rows_confidences)
  qed
next
  assume a: "(\<forall>q c rs. yolo_model w q c = Some rs \<longrightarrow>
       (\<forall>r\<in>set rs. \<forall>bs. boxes r = Some bs \<longrightarrow> (\<forall>b\<in>set bs. c \<le> conf b))) \<and>
    (\<forall>d\<in>set (detections s @ txn s). CONFIDENCE_THRESHOLD \<le> confidence_score d)"
  then have inv: "\<forall>d\<in>set (detections s @ txn s). CONFIDENCE_THRESHOLD \<le> confidence_score d"
    by simp
  show "\<forall>d\<in>set (detections (snd (process_all_images w s))). CONFIDENCE_THRESHOLD \<le> confidence_score d"
  proof (rule process_all_images_rows [where M = "messages s", OF _ inv])
    fix q t d
    assume "d \<in> set (fst (process_image w q t))"
    from process_image_fields [OF this] obtain rs r bs b where
      "yolo_model w q CONFIDENCE_THRESHOLD = Some rs" "r \<in> set rs" "boxes r = Some bs"
      "b \<in> set bs" "confidence_score d = conf b"
      by blast
    with a show "CONFIDENCE_THRESHOLD \<le> confidence_score d"
      by metis
  qed simp
qed

text \<open>The witness: a model that sees a box of confidence 0.1 and one of 0.92 and reports
  those that reach the threshold it is given.\<close>

theorem persisted_rows_reach_threshold_witness:
  "yolo_model (ex_world [ex_box\<lparr>conf := 0.1\<rparr>, ex_box] (\<lambda>_. False)) ex_path CONFIDENCE_THRESHOLD =
     Some [\<lparr>boxes = Some [ex_box], names = [0 \<mapsto> ascii ''box'']\<rparr>] \<and>
   detections ex_state @ txn ex_state = [] \<and>
   detections (snd (process_all_images (ex_world [ex_box\<lparr>conf := 0.1\<rparr>, ex_box] (\<lambda>_. False)) ex_state))
     = [ex_row] \<and>
   CONFIDENCE_THRESHOLD \<le> confidence_score ex_row"
proof -
  let ?w = "ex_world [ex_box\<lparr>conf := 0.1\<rparr>, ex_box] (\<lambda>_. False)"
  have contract: "\<forall>q c rs. yolo_model ?w q c = Some rs \<longrightarrow>
       (\<forall>r\<in>set rs. \<forall>bs. boxes r = Some bs \<longrightarrow> (\<forall>b\<in>set bs. c \<le> conf b))"
    by (auto simp add: ex_world_def)
  have inv: "\<forall>d\<in>set (detections ex_state @ txn ex_state). CONFIDENCE_THRESHOLD \<le> confidence_score d"
    by (simp add: ex_state_def)
  have run: "detections (snd (process_all_images ?w ex_state)) = [ex_row]"
    by (simp add: eval_defs hexdigest_nonempty)
  from persisted_rows_reach_threshold [of ?w ex_path ex_state] contract inv
  have "\<forall>d\<in>set (detections (snd (process_all_images ?w ex_state))). CONFIDENCE_THRESHOLD \<le> confidence_score d"
    by blast
  with run have "CONFIDENCE_THRESHOLD \<le> confidence_score ex_row"
    by simp
  moreover have "yolo_model ?w ex_path CONFIDENCE_THRESHOLD =
     Some [\<lparr>boxes = Some [ex_box], names = [0 \<mapsto> ascii ''box'']\<rparr>]"
    by (simp add: ex_world_def ex_box_def CONFIDENCE_THRESHOLD_def)
  moreover have "detections ex_state @ txn ex_state = []"
    by (simp add: ex_state_def)
  ultimately show ?thesis
    using run by blast
qed

subsection \<open>C10: a failed lookup\<close>

text \<open>
  Claim C10, as amended. When the lookup of a fingerprint raises, \<open>is_image_processed\<close> logs
  the error and answers \<open>False\<close>; the image is treated as not yet processed, the model is
  called on it, and every detection carries the fingerprint of the image. The lookup has
  left the transaction of the connection failed, and nothing rolls it back before
  \<open>save_detections\<close>: when there are detections, the first \<open>INSERT\<close> raises as well, the
  failure is logged and the transaction rolled back. So the committed rows are as before:
  the pass persists no row for the image, and no duplicate of a fingerprint already
  committed.
\<close>

theorem failed_lookup_persists_nothing:
  "files w p = Some content \<and> raises w s \<longrightarrow>
     is_image_processed w (hexdigest (md5 w content)) s =
       (False, say Error_check (s\<lparr>tick := Suc (tick s), aborted := True\<rparr>)) \<and>
     inferred (snd (process_image w p s)) = inferred s @ [p] \<and>
     (\<forall>d\<in>set (fst (process_image w p s)). image_hash d = hexdigest (md5 w content)) \<and>
     detections (snd (process_loop w [p] counts s)) = detections s \<and>
     (fst (process_image w p s) \<noteq> [] \<longrightarrow>
        Error_save \<in> set (logged (snd (process_loop w [p] counts s))))"
proof (intro impI)
  assume a: "files w p = Some content \<and> raises w s"
  let ?h = "hexdigest (md5 w content)"
  from a have f: "files w p = Some content" and r: "raises w s"
    by simp_all
  have look: "is_image_processed w ?h s =
      (False, say Error_check (s\<lparr>tick := Suc (tick s), aborted := True\<rparr>))"
    by (rule is_image_processed_raises [OF r])
  then have no: "\<not> fst (is_image_processed w ?h s)"
    by simp
  have inf: "inferred (snd (process_image w p s)) = inferred s @ [p]"
    by (rule process_image_inferred [OF f no])
  have hashes: "\<forall>d\<in>set (fst (process_image w p s)). image_hash d = ?h"
    using process_image_fields [of _ w p s] f by auto
  from look inf hashes process_loop_raised_lookup [OF f r, of counts]
  show "is_image_processed w ?h s =
       (False, say Error_check (s\<lparr>tick := Suc (tick s), aborted := True\<rparr>)) \<and>
     inferred (snd (process_image w p s)) = inferred s @ [p] \<and>
     (\<forall>d\<in>set (fst (process_image w p s)). image_hash d = ?h) \<and>
     detections (snd (process_loop w [p] counts s)) = detections s \<and>
     (fst (process_image w p s) \<noteq> [] \<longrightarrow>
        Error_save \<in> set (logged (snd (process_loop w [p] counts s))))"
    by blast
qed

text \<open>The witness: the fingerprint is committed and the lookup raises. The model is
  called, the query of the correlator raises too, the one detection is not stored.\<close>

theorem failed_lookup_persists_nothing_witness:
  "files (ex_world [ex_box] (\<lambda>n. n = 0)) ex_path = Some [1, 2, 3] \<and>
   raises (ex_world [ex_box] (\<lambda>n. n = 0)) (ex_state\<lparr>detections := [ex_row]\<rparr>) \<and>
   inferred (snd (process_image (ex_world [ex_box] (\<lambda>n. n = 0)) ex_path
     (ex_state\<lparr>detections := [ex_row]\<rparr>))) = [ex_path] \<and>
   fst (process_image (ex_world [ex_box] (\<lambda>n. n = 0)) ex_path (ex_state\<lparr>detections := [ex_row]\<rparr>))
     = [ex_row\<lparr>message_id := None, channel_name := None\<rparr>] \<and>
   detections (snd (process_loop (ex_world [ex_box] (\<lambda>n. n = 0)) [ex_path] (0, 0)
     (ex_state\<lparr>detections := [ex_row]\<rparr>))) = [ex_row] \<and>
   Error_save \<in> set (logged (snd (process_loop (ex_world [ex_box] (\<lambda>n. n = 0)) [ex_path] (0, 0)
     (ex_state\<lparr>detections := [ex_row]\<rparr>))))"
proof -
  let ?w = "ex_world [ex_box] (\<lambda>n. n = 0)"
  let ?s = "ex_state\<lparr>detections := [ex_row]\<rparr>"
  have f: "files ?w ex_path = Some [1, 2, 3]"
    by (simp add: ex_world_def)
  have bad: "raises ?w ?s"
    by (simp add: raises_def ex_world_def ex_state_def)
  have rows: "fst (process_image ?w ex_path ?s) = [ex_row\<lparr>message_id := None, channel_name := None\<rparr>]"
    by (simp add: eval_defs hexdigest_nonempty)
  have d: "detections ?s = [ex_row]" "inferred ?s = []"
    by (simp_all add: ex_state_def)
  from failed_lookup_persists_nothing [of ?w ex_path "[1, 2, 3]" ?s "(0, 0)"] f bad rows d
  have "inferred (snd (process_image ?w ex_path ?s)) = [ex_path] \<and>
    detections (snd (process_loop ?w [ex_path] (0, 0) ?s)) = [ex_row] \<and>
    Error_save \<in> set (logged (snd (process_loop ?w [ex_path] (0, 0) ?s)))"
    by simp
  with f bad rows show ?thesis by blast
qed

text \<open>
  Claim C10, as stated, fails in its last part: at the input where the fingerprint is
  committed, the lookup raises and no other call is scheduled to raise, the run leaves the
  one committed row alone; and no world, image and state exist where a lookup that raises is
  followed by a change of the committed rows while that image is processed.
\<close>

theorem failed_lookup_duplicates_counterexample:
  "raises (ex_world [ex_box] (\<lambda>n. n = 0)) (ex_state\<lparr>detections := [ex_row]\<rparr>) \<and>
   image_hash ex_row = hexdigest (md5 (ex_world [ex_box] (\<lambda>n. n = 0)) [1, 2, 3]) \<and>
   fst (process_image (ex_world [ex_box] (\<lambda>n. n = 0)) ex_path (ex_state\<lparr>detections := [ex_row]\<rparr>))
     = [ex_row\<lparr>message_id := None, channel_name := None\<rparr>] \<and>
   detections (snd (process_all_images (ex_world [ex_box] (\<lambda>n. n = 0))
     (ex_state\<lparr>detections := [ex_row]\<rparr>))) = [ex_row] \<and>
   \<not> (\<exists>w p content s counts. files w p = Some content \<and> raises w s \<and>
         detections (snd (process_loop w [p] counts s)) \<noteq> detections s)"
proof -
  let ?w = "ex_world [ex_box] (\<lambda>n. n = 0)"
  let ?s = "ex_state\<lparr>detections := [ex_row]\<rparr>"
  have bad: "raises ?w ?s"
    by (simp add: raises_def ex_world_def ex_state_def)
  have h: "image_hash ex_row = hexdigest (md5 ?w [1, 2, 3])"
    by (simp add: ex_world_def ex_row_def)
  have rows: "fst (process_image ?w ex_path ?s) = [ex_row\<lparr>message_id := None, channel_name := None\<rparr>]"
    by (simp add: eval_defs hexdigest_nonempty)
  have run: "detections (snd (process_all_images ?w ?s)) = [ex_row]"
    by (simp add: eval_defs hexdigest_nonempty)
  have never: "\<not> (\<exists>w p content s counts. files w p = Some content \<and> raises w s \<and>
         detections (snd (process_loop w [p] counts s)) \<noteq> detections s)"
    using process_loop_raised_lookup(1) by blast
  from bad h rows run never show ?thesis by blast
qed


end
